theory Spec2Isabelle
  imports Main "HOL-Library.Monad_Syntax" "HOL-Library.AList"
begin

section \<open>Data model\<close>

text \<open>
  The transform of \<^verbatim>\<open>lib/index.js\<close> works on mdast trees: plain JavaScript objects with a
  \<^verbatim>\<open>type\<close> string and optional \<^verbatim>\<open>children\<close>, \<^verbatim>\<open>position\<close>, \<^verbatim>\<open>data\<close>, \<^verbatim>\<open>value\<close>,
  \<^verbatim>\<open>attributes\<close>, \<^verbatim>\<open>lang\<close> and \<^verbatim>\<open>spread\<close> fields. The code mutates one tree in place; the
  model passes the tree through each function and returns the new one. A thrown
  \<^verbatim>\<open>TypeError\<close> is the result \<open>None\<close>.
\<close>

text \<open>
  \<^verbatim>\<open>Record<string, string>\<close>, in the order \<^verbatim>\<open>Object.entries\<close> lists it: the order in which
  the keys were created. (JavaScript lists keys that are array indices first; such keys
  are left out of the model. They never meet \<^verbatim>\<open>class\<close> or \<^verbatim>\<open>className\<close>, the only keys
  whose order matters to the merger.) The \<^verbatim>\<open>attributes\<close> field is required on a fragment
  by the source's \<^verbatim>\<open>MdastAttributes\<close> type and is read on fragments only; on other nodes
  the model holds the empty list.
\<close>
type_synonym attrs = "(string \<times> string) list"

text \<open>A value of \<^verbatim>\<open>hProperties\<close>: a string, or an array of strings (\<^verbatim>\<open>className\<close>).\<close>
datatype pval = Str string | Toks "string list"

text \<open>\<^verbatim>\<open>Record<string, string | string[]>\<close>: the property bag, in property order.\<close>
type_synonym bag = "(string \<times> pval) list"

record point =
  line :: "int option"
  column :: "int option"
  offset :: "int option"

record position =
  pos_start :: "point option"
  pos_end :: "point option"

record ndata =
  hProperties :: "bag option"
  mdastAttributes :: "attrs option"

record props =
  ntype :: string
  position :: "position option"
  data :: "ndata option"
  nvalue :: "string option"
  attributes :: attrs
  lang :: "string option"
  spread :: "bool option"

datatype node = Node (props: props) (children: "node list option")

definition INLINE_TYPES :: "string set" where
  "INLINE_TYPES = {''emphasis'', ''strong'', ''link'', ''image'', ''inlineCode''}"

text \<open>The optional chains \<^verbatim>\<open>n.position?.end?.offset\<close> and friends: \<open>None\<close> is \<^verbatim>\<open>undefined\<close>.\<close>

definition end_offset :: "node \<Rightarrow> int option" where
  "end_offset n = position (props n) \<bind> pos_end \<bind> offset"

definition start_offset :: "node \<Rightarrow> int option" where
  "start_offset n = position (props n) \<bind> pos_start \<bind> offset"

definition end_line :: "node \<Rightarrow> int option" where
  "end_line n = position (props n) \<bind> pos_end \<bind> line"

definition start_line :: "node \<Rightarrow> int option" where
  "start_line n = position (props n) \<bind> pos_start \<bind> line"

section \<open>The property-bag merger\<close>

text \<open>\<^verbatim>\<open>value.split(' ')\<close>: the pieces between single space characters, empty pieces kept.\<close>

fun split_space :: "string \<Rightarrow> string list" where
  "split_space [] = [[]]"
| "split_space (c # cs) =
     (if c = CHR '' '' then [] # split_space cs
      else (case split_space cs of w # ws \<Rightarrow> (c # w) # ws | [] \<Rightarrow> [[c]]))"

text \<open>The body of \<^verbatim>\<open>for (const cls of value.split(' '))\<close>: push a non-empty class that
  \<^verbatim>\<open>existing\<close> does not include yet.\<close>

definition add_class :: "string \<Rightarrow> string list \<Rightarrow> string list" where
  "add_class cls existing = (if cls \<noteq> [] \<and> cls \<notin> set existing then existing @ [cls] else existing)"

text \<open>\<^verbatim>\<open>Array.isArray(target.className) ? target.className : []\<close>.\<close>

definition existing_classes :: "bag \<Rightarrow> string list" where
  "existing_classes target = (case map_of target ''className'' of Some (Toks ts) \<Rightarrow> ts | _ \<Rightarrow> [])"

text \<open>The block guarded by \<^verbatim>\<open>node && node.type === 'code' && node.lang\<close>: the language class
  is pushed unless already included. An empty \<^verbatim>\<open>lang\<close> is falsy.\<close>

definition add_lang_class :: "node option \<Rightarrow> string list \<Rightarrow> string list" where
  "add_lang_class node existing =
     (case node of
        None \<Rightarrow> existing
      | Some n \<Rightarrow>
          (case lang (props n) of
             None \<Rightarrow> existing
           | Some l \<Rightarrow>
               if ntype (props n) = ''code'' \<and> l \<noteq> []
               then (let langClass = ''language-'' @ l
                     in if langClass \<in> set existing then existing else existing @ [langClass])
               else existing))"

text \<open>
  \<^verbatim>\<open>mergeAttributes(target, source, node)\<close>. The loop over \<^verbatim>\<open>Object.entries(source)\<close> is the
  recursion over the source list; \<^verbatim>\<open>target[key] = value\<close> overwrites the entry in place or
  appends a new one, which is \<open>AList.update\<close>. The source is typed as strings, but the
  tight-list pass hands a property bag in: a \<^verbatim>\<open>class\<close> entry holding an array has no
  \<^verbatim>\<open>split\<close> method and the call throws.
\<close>

fun mergeAttributes :: "bag \<Rightarrow> bag \<Rightarrow> node option \<Rightarrow> bag option" where
  "mergeAttributes target [] node = Some target"
| "mergeAttributes target ((key, v) # source) node =
     (if key = ''class'' then
        (let existing = add_lang_class node (existing_classes target)
         in case v of
              Str s \<Rightarrow>
                mergeAttributes
                  (AList.update ''className'' (Toks (fold add_class (split_space s) existing)) target)
                  source node
            | Toks _ \<Rightarrow> None)
      else mergeAttributes (AList.update key v target) source node)"

text \<open>A fragment's \<^verbatim>\<open>attributes\<close> (strings only) as a merge source.\<close>

definition str_attrs :: "attrs \<Rightarrow> bag" where
  "str_attrs a = map (\<lambda>(k, v). (k, Str v)) a"

definition empty_data :: ndata where
  "empty_data = \<lparr>hProperties = None, mdastAttributes = None\<rparr>"

text \<open>\<^verbatim>\<open>mergeAttributesToNode(node, attributes)\<close>: \<^verbatim>\<open>node.data\<close> and \<^verbatim>\<open>hProperties\<close> are
  created when missing.\<close>

definition mergeAttributesToNode :: "node \<Rightarrow> bag \<Rightarrow> node option" where
  "mergeAttributesToNode node attributes' =
     (let d = (case data (props node) of None \<Rightarrow> empty_data | Some d \<Rightarrow> d);
          hp = (case hProperties d of None \<Rightarrow> [] | Some h \<Rightarrow> h)
      in mergeAttributes hp attributes' (Some node) \<bind>
           (\<lambda>hp'. Some (Node ((props node)\<lparr>data := Some (d\<lparr>hProperties := Some hp'\<rparr>)\<rparr>)
                              (children node))))"

section \<open>Adjacency tests\<close>

definition getPositionGap :: "node \<Rightarrow> node \<Rightarrow> int" where
  "getPositionGap bef aft =
     (case (end_offset bef, start_offset aft) of
        (Some beforeEnd, Some afterStart) \<Rightarrow> afterStart - beforeEnd
      | _ \<Rightarrow> - 1)"

definition areDirectlyAdjacent :: "node \<Rightarrow> node \<Rightarrow> bool" where
  "areDirectlyAdjacent first second =
     (case (end_line first, start_line second) of
        (Some firstEnd, Some secondStart) \<Rightarrow> secondStart - firstEnd = 1
      | _ \<Rightarrow> False)"

section \<open>The generic resolver\<close>

text \<open>\<^verbatim>\<open>children.splice(index, 1)\<close>.\<close>

definition splice1 :: "nat \<Rightarrow> 'a list \<Rightarrow> 'a list" where
  "splice1 index xs = take index xs @ drop (Suc index) xs"

text \<open>The text node of Rule 3: \<^verbatim>\<open>{type: 'text', value: attrNode.value}\<close>, with the
  fragment's \<^verbatim>\<open>position\<close> when it has one.\<close>

definition textNode :: "node \<Rightarrow> node" where
  "textNode attrNode =
     Node \<lparr>ntype = ''text'', position = position (props attrNode), data = None,
           nvalue = nvalue (props attrNode), attributes = [], lang = None, spread = None\<rparr> None"

text \<open>
  \<^verbatim>\<open>handleAttributeNode(parent, index, attrNode)\<close>. The source calls it with
  \<^verbatim>\<open>attrNode = parent.children[index]\<close> only; a parent without \<^verbatim>\<open>children\<close> throws, and an
  index beyond the array is left out of the model (\<open>None\<close>).
\<close>

definition handleAttributeNode :: "node \<Rightarrow> nat \<Rightarrow> node \<Rightarrow> node option" where
  "handleAttributeNode parent index attrNode =
     (case children parent of
        None \<Rightarrow> None
      | Some cs \<Rightarrow>
          if length cs \<le> index then None
          else
            (let prevSibling = (if index > 0 then Some (cs ! (index - 1)) else None);
                 rule1 = (case prevSibling of
                            None \<Rightarrow> False
                          | Some prev \<Rightarrow> ntype (props prev) \<in> INLINE_TYPES
                                         \<and> getPositionGap prev attrNode = 0);
                 isLastChild = (index = length cs - 1)
             in if rule1 then
                  mergeAttributesToNode (cs ! (index - 1)) (str_attrs (attributes (props attrNode))) \<bind>
                    (\<lambda>prev'. Some (Node (props parent) (Some (splice1 index (cs[index - 1 := prev'])))))
                else if isLastChild \<and> ntype (props parent) \<notin> INLINE_TYPES then
                  mergeAttributesToNode parent (str_attrs (attributes (props attrNode))) \<bind>
                    (\<lambda>parent'. Some (Node (props parent') (Some (splice1 index cs))))
                else Some (Node (props parent) (Some (cs[index := textNode attrNode])))))"

subsection \<open>Sizes, for the termination of the walks\<close>

lemma mergeAttributesToNode_children:
  "mergeAttributesToNode n a = Some n' \<Longrightarrow> children n' = children n"
  by (auto simp: mergeAttributesToNode_def Let_def split: bind_splits)

lemma size_node_children: "children n = children m \<Longrightarrow> size n = size m"
  by (cases n; cases m) simp

lemma mergeAttributesToNode_size:
  "mergeAttributesToNode n a = Some n' \<Longrightarrow> size n' = size n"
  by (rule size_node_children) (rule mergeAttributesToNode_children)

lemma size_list_take_Suc:
  "i < length xs \<Longrightarrow> size_list f (take (Suc i) xs) = size_list f (take i xs) + f (xs ! i) + 1"
  by (simp add: take_Suc_conv_app_nth)

lemma take_splice1: "i \<le> length xs \<Longrightarrow> take i (splice1 i xs) = take i xs"
  by (simp add: splice1_def)

lemma size_list_update_same:
  "j < length xs \<Longrightarrow> f y = f (xs ! j) \<Longrightarrow> size_list f (xs[j := y]) = size_list f xs"
  by (induction xs arbitrary: j) (auto split: nat.splits)

lemma size_list_take_update:
  "j < i \<Longrightarrow> i \<le> length xs \<Longrightarrow> f y = f (xs ! j) \<Longrightarrow>
   size_list f (take i (xs[j := y])) = size_list f (take i xs)"
  by (simp add: take_update_swap size_list_update_same)

lemma handleAttributeNode_take:
  assumes "handleAttributeNode parent i a = Some p'" and "children parent = Some cs"
  shows "\<exists>cs'. children p' = Some cs' \<and> size_list size (take i cs') = size_list size (take i cs)"
  using assms
  by (auto simp: handleAttributeNode_def Let_def take_splice1 size_list_take_update
        mergeAttributesToNode_size
      split: if_splits bind_splits option.splits)

text \<open>
  \<^verbatim>\<open>processNode(node, parent)\<close> (the second argument is never read). The loop
  \<^verbatim>\<open>for (let i = children.length - 1; i >= 0; i--)\<close> is \<open>processNode_loop\<close>, whose
  counter is \<open>i + 1\<close>; the node under the loop is the parent as mutated so far. A read
  beyond the array gives \<^verbatim>\<open>undefined\<close>, whose \<^verbatim>\<open>.type\<close> throws.
\<close>

function processNode :: "node \<Rightarrow> node option"
  and processNode_loop :: "node \<Rightarrow> nat \<Rightarrow> node option" where
  "processNode node =
     (case children node of
        None \<Rightarrow> Some node
      | Some cs \<Rightarrow> processNode_loop node (length cs))"
| "processNode_loop nodeWithChildren 0 = Some nodeWithChildren"
| "processNode_loop nodeWithChildren (Suc i) =
     (case children nodeWithChildren of
        None \<Rightarrow> None
      | Some cs \<Rightarrow>
          if length cs \<le> i then None
          else
            (let child = cs ! i
             in if ntype (props child) = ''mdastAttributes'' then
                  handleAttributeNode nodeWithChildren i child \<bind>
                    (\<lambda>parent'. processNode_loop parent' i)
                else
                  processNode child \<bind>
                    (\<lambda>child'. processNode_loop
                       (Node (props nodeWithChildren) (Some (cs[i := child']))) i)))"
  by pat_completeness auto
termination
  apply (relation "measure (\<lambda>x. case x of Inl n \<Rightarrow> size n
          | Inr (p, k) \<Rightarrow> size_list size (take k (case children p of None \<Rightarrow> [] | Some cs \<Rightarrow> cs)))")
  apply simp
  subgoal for node cs by (cases node) simp
  subgoal for p i cs child p'
    using handleAttributeNode_take[of p i "cs ! i" p' cs] by (auto simp: size_list_take_Suc)
  subgoal for p i cs child
    by (simp add: size_list_take_Suc)
  subgoal for p i cs child c'
    by (simp add: size_list_take_Suc)
  done

declare processNode.simps [simp del]




section \<open>The pre-passes\<close>

text \<open>
  \<^verbatim>\<open>processCodeBlocks(node)\<close>: a \<^verbatim>\<open>code\<close> node with a truthy \<^verbatim>\<open>data.mdastAttributes\<close> gets it
  merged into \<^verbatim>\<open>data.hProperties\<close> and deleted; the walk returns at a \<^verbatim>\<open>code\<close> node and
  descends into the children of every other node.
\<close>

fun processCodeBlocks :: "node \<Rightarrow> node option" where
  "processCodeBlocks (Node p ch) =
     (if ntype p = ''code'' then
        (case data p \<bind> mdastAttributes of
           None \<Rightarrow> Some (Node p ch)
         | Some side \<Rightarrow>
             (let d = (case data p of None \<Rightarrow> empty_data | Some d \<Rightarrow> d);
                  hp = (case hProperties d of None \<Rightarrow> [] | Some h \<Rightarrow> h)
              in mergeAttributes hp (str_attrs side) (Some (Node p ch)) \<bind>
                   (\<lambda>hp'. Some (Node (p\<lparr>data := Some (d\<lparr>hProperties := Some hp',
                                                           mdastAttributes := None\<rparr>)\<rparr>) ch))))
      else
        (case ch of
           None \<Rightarrow> Some (Node p ch)
         | Some cs \<Rightarrow> those (map processCodeBlocks cs) \<bind> (\<lambda>cs'. Some (Node p (Some cs')))))"


text \<open>The inner loop \<^verbatim>\<open>for (const attrChild of hrWithChildren.children)\<close> of
  \<^verbatim>\<open>processThematicBreaksInParent\<close>.\<close>

fun mergeAttrChildren :: "node \<Rightarrow> node list \<Rightarrow> node option" where
  "mergeAttrChildren child [] = Some child"
| "mergeAttrChildren child (attrChild # rest) =
     (if ntype (props attrChild) = ''mdastAttributes'' then
        mergeAttributesToNode child (str_attrs (attributes (props attrChild))) \<bind>
          (\<lambda>child'. mergeAttrChildren child' rest)
      else mergeAttrChildren child rest)"


text \<open>The first \<^verbatim>\<open>if\<close> of that loop's body: a \<^verbatim>\<open>thematicBreak\<close> with a non-empty
  \<^verbatim>\<open>children\<close> array takes its fragments' attributes and loses the \<^verbatim>\<open>children\<close> field.\<close>

definition flattenThematicBreak :: "node \<Rightarrow> node option" where
  "flattenThematicBreak child =
     (if ntype (props child) = ''thematicBreak'' then
        (case children child of
           Some (attrChild # rest) \<Rightarrow>
             mergeAttrChildren child (attrChild # rest) \<bind> (\<lambda>child'. Some (Node (props child') None))
         | _ \<Rightarrow> Some child)
      else Some child)"

lemma size_list_member: "x \<in> set xs \<Longrightarrow> f x < size_list f xs"
  by (induction xs) auto

lemma mergeAttrChildren_children:
  "mergeAttrChildren c rest = Some c' \<Longrightarrow> children c' = children c"
  by (induction rest arbitrary: c) (auto split: if_splits bind_splits dest: mergeAttributesToNode_children)

lemma flattenThematicBreak_cases:
  "flattenThematicBreak c = Some c' \<Longrightarrow> c' = c \<or> children c' = None"
  by (auto simp: flattenThematicBreak_def split: if_splits option.splits list.splits bind_splits)


text \<open>\<^verbatim>\<open>processThematicBreaksInParent(parent)\<close>: each child is flattened, then descended
  into when it (still) has \<^verbatim>\<open>children\<close>.\<close>

function processThematicBreaksInParent :: "node \<Rightarrow> node option" where
  "processThematicBreaksInParent parent =
     (case children parent of
        None \<Rightarrow> Some parent
      | Some cs \<Rightarrow>
          those (map (\<lambda>child.
                   flattenThematicBreak child \<bind>
                     (\<lambda>child'. if children child' \<noteq> None
                               then processThematicBreaksInParent child' else Some child')) cs) \<bind>
            (\<lambda>cs'. Some (Node (props parent) (Some cs'))))"
  by pat_completeness auto
termination
  apply (relation "measure size")
   apply simp
  subgoal for parent cs child child'
    using size_list_member[of child cs size]
    by (cases parent) (auto dest!: flattenThematicBreak_cases)
  done

declare processThematicBreaksInParent.simps [simp del]


text \<open>
  \<^verbatim>\<open>getStandaloneAttributesFromParagraph(node)\<close>: the inner \<open>None\<close> is \<^verbatim>\<open>null\<close>; the outer
  \<open>None\<close> is the \<^verbatim>\<open>TypeError\<close> of \<^verbatim>\<open>para.children.length\<close> on a paragraph without
  \<^verbatim>\<open>children\<close>.
\<close>

definition getStandaloneAttributesFromParagraph :: "node \<Rightarrow> node option option" where
  "getStandaloneAttributesFromParagraph node =
     (if ntype (props node) \<noteq> ''paragraph'' then Some None
      else
        (case children node of
           None \<Rightarrow> None
         | Some cs \<Rightarrow>
             if length cs \<noteq> 1 then Some None
             else if ntype (props (cs ! 0)) \<noteq> ''mdastAttributes'' then Some None
             else Some (Some (cs ! 0))))"


text \<open>
  \<^verbatim>\<open>processStandaloneInParent(parent)\<close>. The loop
  \<^verbatim>\<open>for (let i = 0; i < parent.children.length; i++)\<close> is \<open>standalone_loop\<close> on
  \<^verbatim>\<open>children.slice(i)\<close>: the elements before \<^verbatim>\<open>i\<close> are never read again. On an attachment
  the paragraph is spliced out and \<^verbatim>\<open>i\<close> stays, so the loop goes on at the merged next
  sibling; otherwise the child is descended into and the loop moves on.
\<close>

function processStandaloneInParent :: "node \<Rightarrow> node option"
  and standalone_loop :: "node list \<Rightarrow> node list option" where
  "processStandaloneInParent parent =
     (case children parent of
        None \<Rightarrow> Some parent
      | Some cs \<Rightarrow> standalone_loop cs \<bind> (\<lambda>cs'. Some (Node (props parent) (Some cs'))))"
| "standalone_loop [] = Some []"
| "standalone_loop (child # rest) =
     getStandaloneAttributesFromParagraph child \<bind>
       (\<lambda>standaloneAttrs.
          if standaloneAttrs \<noteq> None \<and> rest \<noteq> [] \<and> areDirectlyAdjacent child (hd rest) then
            mergeAttributesToNode (hd rest) (str_attrs (attributes (props (the standaloneAttrs)))) \<bind>
              (\<lambda>nextSibling'. standalone_loop (nextSibling' # tl rest))
          else
            (if children child \<noteq> None then processStandaloneInParent child else Some child) \<bind>
              (\<lambda>child'. standalone_loop rest \<bind> (\<lambda>rest'. Some (child' # rest'))))"
  by pat_completeness auto
termination
  apply (relation "measure (\<lambda>x. case x of Inl n \<Rightarrow> size n | Inr cs \<Rightarrow> size_list size cs)")
      apply simp
  subgoal for parent cs by (cases parent) simp
  subgoal for child rest sa next'
    by (cases rest) (auto dest: mergeAttributesToNode_size)
  subgoal by simp
  subgoal by simp
  done

declare processStandaloneInParent.simps [simp del]

text \<open>One round of the loop, unfolded where it is needed only: the equation for a
  non-empty list calls the loop on a non-empty list again.\<close>

lemmas standalone_loop_Cons = standalone_loop.simps(2)

declare standalone_loop.simps(2) [simp del]


text \<open>
  \<^verbatim>\<open>processTrailingInParent(parent)\<close>. The loop starts at \<^verbatim>\<open>i = 1\<close>; \<open>trailing_loop\<close> carries
  \<^verbatim>\<open>children[i - 1]\<close> (as left by the previous round) and \<^verbatim>\<open>children.slice(i)\<close>, and
  returns \<^verbatim>\<open>children.slice(i - 1)\<close> as the loop leaves it. The first child is never
  descended into. \<^verbatim>\<open>getStandaloneAttributesFromParagraph\<close> is called only behind a
  \<^verbatim>\<open>thematicBreak\<close>.
\<close>

function processTrailingInParent :: "node \<Rightarrow> node option"
  and trailing_loop :: "node \<Rightarrow> node list \<Rightarrow> node list option" where
  "processTrailingInParent parent =
     (case children parent of
        None \<Rightarrow> Some parent
      | Some [] \<Rightarrow> Some parent
      | Some (first # rest) \<Rightarrow>
          trailing_loop first rest \<bind> (\<lambda>cs'. Some (Node (props parent) (Some cs'))))"
| "trailing_loop prevSibling [] = Some [prevSibling]"
| "trailing_loop prevSibling (child # rest) =
     (if ntype (props prevSibling) = ''thematicBreak''
      then getStandaloneAttributesFromParagraph child else Some None) \<bind>
       (\<lambda>standaloneAttrs.
          if standaloneAttrs \<noteq> None \<and> areDirectlyAdjacent prevSibling child then
            mergeAttributesToNode prevSibling (str_attrs (attributes (props (the standaloneAttrs)))) \<bind>
              (\<lambda>prevSibling'. trailing_loop prevSibling' rest)
          else
            (if children child \<noteq> None then processTrailingInParent child else Some child) \<bind>
              (\<lambda>child'. trailing_loop child' rest \<bind> (\<lambda>cs'. Some (prevSibling # cs'))))"
  by pat_completeness auto
termination
  apply (relation "measure (\<lambda>x. case x of Inl n \<Rightarrow> size n | Inr (p, cs) \<Rightarrow> size_list size cs)")
      apply simp
  subgoal for parent cs first rest by (cases parent) simp
  subgoal by simp
  subgoal by simp
  subgoal by simp
  done

declare processTrailingInParent.simps [simp del]


section \<open>The tight-list pass\<close>

text \<open>The test \<^verbatim>\<open>grandchild.type === 'paragraph' && grandchild.data?.hProperties &&
  Object.keys(grandchild.data.hProperties).length > 0\<close>, returning the bag when it holds.\<close>

definition promotable :: "node \<Rightarrow> bag option" where
  "promotable grandchild =
     (if ntype (props grandchild) = ''paragraph'' then
        (case data (props grandchild) \<bind> hProperties of
           None \<Rightarrow> None
         | Some hp \<Rightarrow> if hp \<noteq> [] then Some hp else None)
      else None)"


text \<open>\<^verbatim>\<open>delete grandchild.data.hProperties\<close>.\<close>

definition delete_hProperties :: "node \<Rightarrow> node" where
  "delete_hProperties n =
     Node ((props n)\<lparr>data := map_option (\<lambda>d. d\<lparr>hProperties := None\<rparr>) (data (props n))\<rparr>) (children n)"


text \<open>The loop \<^verbatim>\<open>for (const grandchild of child.children)\<close>: the list item under it,
  as mutated so far, and the grandchildren, returned with their bags deleted.\<close>

fun promote_grandchildren :: "node \<Rightarrow> node list \<Rightarrow> (node \<times> node list) option" where
  "promote_grandchildren child [] = Some (child, [])"
| "promote_grandchildren child (grandchild # rest) =
     (case promotable grandchild of
        Some hp \<Rightarrow>
          mergeAttributesToNode child hp \<bind>
            (\<lambda>child'. promote_grandchildren child' rest \<bind>
               (\<lambda>(child'', rest'). Some (child'', delete_hProperties grandchild # rest')))
      | None \<Rightarrow>
          promote_grandchildren child rest \<bind>
            (\<lambda>(child'', rest'). Some (child'', grandchild # rest')))"


text \<open>The body of \<^verbatim>\<open>for (const child of node.children)\<close> in the tight-list block. A
  \<^verbatim>\<open>listItem\<close> without \<^verbatim>\<open>children\<close> is not iterable: \<^verbatim>\<open>TypeError\<close>.\<close>

definition promote_child :: "node \<Rightarrow> node option" where
  "promote_child child =
     (if ntype (props child) = ''listItem'' then
        (case children child of
           None \<Rightarrow> None
         | Some gs \<Rightarrow>
             promote_grandchildren child gs \<bind>
               (\<lambda>(child', gs'). Some (Node (props child') (Some gs'))))
      else Some child)"

lemma promote_grandchildren_size:
  "promote_grandchildren c gs = Some (c', gs') \<Longrightarrow> size_list size gs' = size_list size gs"
proof (induction gs arbitrary: c c' gs')
  case Nil
  then show ?case by simp
next
  case (Cons g gs)
  have del: "size (delete_hProperties g) = size g"
    by (cases g) (simp add: delete_hProperties_def)
  from Cons.prems Cons.IH show ?case
    by (auto simp: del split: option.splits bind_splits)
qed

lemma promote_child_size: "promote_child c = Some c' \<Longrightarrow> size c' = size c"
  by (cases c)
    (auto simp: promote_child_def split: if_splits option.splits bind_splits
      dest: promote_grandchildren_size)

lemma those_map_size:
  assumes "those (map f xs) = Some ys" and "\<forall>x y. x \<in> set xs \<longrightarrow> f x = Some y \<longrightarrow> size y = size x"
  shows "size_list size ys = size_list size xs"
  using assms
proof (induction xs arbitrary: ys)
  case Nil
  then show ?case by simp
next
  case (Cons x xs)
  then show ?case by (fastforce split: option.splits)
qed


text \<open>\<^verbatim>\<open>promoteTightListAttributes(node)\<close>: \<^verbatim>\<open>!node.spread\<close> holds for \<^verbatim>\<open>false\<close> and for a
  missing flag.\<close>

function promoteTightListAttributes :: "node \<Rightarrow> node option" where
  "promoteTightListAttributes node =
     (case children node of
        None \<Rightarrow> Some node
      | Some cs \<Rightarrow>
          (if ntype (props node) = ''list'' \<and> spread (props node) \<noteq> Some True
           then those (map promote_child cs) else Some cs) \<bind>
            (\<lambda>cs1. those (map promoteTightListAttributes cs1) \<bind>
               (\<lambda>cs2. Some (Node (props node) (Some cs2)))))"
  by pat_completeness auto
termination
  apply (relation "measure size")
   apply simp
  subgoal for node cs cs1 x
    using size_list_member[of x cs1 size] those_map_size[of promote_child cs cs1]
    by (cases node) (auto split: if_splits simp: promote_child_size)
  done

declare promoteTightListAttributes.simps [simp del]


section \<open>The transform\<close>

text \<open>\<^verbatim>\<open>attributesTransform(tree)\<close>: the six passes in the order of the source.\<close>

definition attributesTransform :: "node \<Rightarrow> node option" where
  "attributesTransform tree =
     processCodeBlocks tree \<bind> processThematicBreaksInParent \<bind> processStandaloneInParent \<bind>
     processTrailingInParent \<bind> processNode \<bind> promoteTightListAttributes"


section \<open>Example trees\<close>

text \<open>A node object holding a \<^verbatim>\<open>type\<close> and nothing else.\<close>

definition bare :: "string \<Rightarrow> props" where
  "bare ty = \<lparr>ntype = ty, position = None, data = None, nvalue = None, attributes = [],
              lang = None, spread = None\<rparr>"

text \<open>A position from start line, start offset, end line and end offset.\<close>

definition span :: "int \<Rightarrow> int \<Rightarrow> int \<Rightarrow> int \<Rightarrow> position option" where
  "span sl so el eo =
     Some \<lparr>pos_start = Some \<lparr>line = Some sl, column = None, offset = Some so\<rparr>,
           pos_end = Some \<lparr>line = Some el, column = None, offset = Some eo\<rparr>\<rparr>"

text \<open>An attribute fragment: \<^verbatim>\<open>{type: 'mdastAttributes', attributes, value, position}\<close>.\<close>

definition frag :: "attrs \<Rightarrow> string \<Rightarrow> position option \<Rightarrow> node" where
  "frag a txt pos =
     Node ((bare ''mdastAttributes'')\<lparr>attributes := a, nvalue := Some txt, position := pos\<rparr>) None"

text \<open>The same node with \<^verbatim>\<open>data = {hProperties: b}\<close>.\<close>

definition bagged :: "bag \<Rightarrow> node \<Rightarrow> node" where
  "bagged b n =
     Node ((props n)\<lparr>data := Some \<lparr>hProperties = Some b, mdastAttributes = None\<rparr>\<rparr>) (children n)"

text \<open>Two standalone attribute paragraphs on lines 1 and 2 and a heading on line 3.\<close>

definition ex_P1 :: node where
  "ex_P1 = Node ((bare ''paragraph'')\<lparr>position := span 1 0 1 4\<rparr>)
             (Some [frag [(''id'', ''a'')] ''{#a}'' (span 1 0 1 4)])"

definition ex_P2 :: node where
  "ex_P2 = Node ((bare ''paragraph'')\<lparr>position := span 2 5 2 9\<rparr>)
             (Some [frag [(''class'', ''b'')] ''{.b}'' (span 2 5 2 9)])"

definition ex_B :: node where
  "ex_B = Node ((bare ''heading'')\<lparr>position := span 3 10 3 13\<rparr>)
            (Some [Node ((bare ''text'')\<lparr>nvalue := Some ''H'',
                                          position := span 3 12 3 13\<rparr>) None])"


section \<open>Class accumulation\<close>

text \<open>Order-preserving de-duplication: every element once, at its first place.\<close>

fun first_occurrences :: "'a list \<Rightarrow> 'a list" where
  "first_occurrences [] = []"
| "first_occurrences (x # xs) = x # filter (\<lambda>y. y \<noteq> x) (first_occurrences xs)"

text \<open>The class sequence after a merge, in the words of the specification: the sequence
  so far, then each non-empty piece of the value that is not present yet, once, in order.\<close>

definition class_tokens_spec :: "string list \<Rightarrow> string \<Rightarrow> string list" where
  "class_tokens_spec existing v =
     existing @ first_occurrences (filter (\<lambda>c. c \<noteq> [] \<and> c \<notin> set existing) (split_space v))"

text \<open>Splitting on whitespace, as the specification words it: a space, a tab, a line feed,
  a vertical tab, a form feed or a carriage return separates two pieces.\<close>

definition is_whitespace :: "char \<Rightarrow> bool" where
  "is_whitespace c = (c = CHR '' '' \<or> c = CHR 0x09 \<or> c = CHR 0x0A \<or> c = CHR 0x0B
                      \<or> c = CHR 0x0C \<or> c = CHR 0x0D)"

fun split_whitespace :: "string \<Rightarrow> string list" where
  "split_whitespace [] = [[]]"
| "split_whitespace (c # cs) =
     (if is_whitespace c then [] # split_whitespace cs
      else (case split_whitespace cs of w # ws \<Rightarrow> (c # w) # ws | [] \<Rightarrow> [[c]]))"

lemma set_first_occurrences: "set (first_occurrences xs) = set xs"
  by (induction xs) auto

lemma filter_first_occurrences:
  "filter Q (first_occurrences xs) = first_occurrences (filter Q xs)"
proof (induction xs)
  case Nil
  then show ?case by simp
next
  case (Cons a xs)
  have swap: "filter Q (filter (\<lambda>y. y \<noteq> a) (first_occurrences xs))
              = filter (\<lambda>y. y \<noteq> a) (filter Q (first_occurrences xs))"
    by (simp add: conj_commute)
  show ?case
  proof (cases "Q a")
    case True
    with Cons.IH swap show ?thesis by simp
  next
    case False
    then have "a \<notin> set (first_occurrences (filter Q xs))"
      by (simp add: set_first_occurrences)
    then have "filter (\<lambda>y. y \<noteq> a) (first_occurrences (filter Q xs)) = first_occurrences (filter Q xs)"
      by (auto simp: filter_id_conv)
    with False Cons.IH swap show ?thesis by simp
  qed
qed

lemma distinct_first_occurrences: "distinct (first_occurrences xs)"
  by (induction xs) (auto simp: set_first_occurrences)

lemma fold_add_class:
  "fold add_class xs ex = ex @ first_occurrences (filter (\<lambda>c. c \<noteq> [] \<and> c \<notin> set ex) xs)"
proof (induction xs arbitrary: ex)
  case Nil
  then show ?case by simp
next
  case (Cons x xs)
  show ?case
  proof (cases "x \<noteq> [] \<and> x \<notin> set ex")
    case True
    have "filter (\<lambda>c. c \<noteq> [] \<and> c \<notin> set (ex @ [x])) xs
          = filter (\<lambda>y. y \<noteq> x) (filter (\<lambda>c. c \<noteq> [] \<and> c \<notin> set ex) xs)"
      by (auto intro: filter_cong)
    moreover have "add_class x ex = ex @ [x]"
      using True by (simp add: add_class_def)
    ultimately show ?thesis
      using True Cons.IH[of "ex @ [x]"] by (simp add: filter_first_occurrences)
  next
    case False
    then have "filter (\<lambda>c. c \<noteq> [] \<and> c \<notin> set ex) (x # xs) = filter (\<lambda>c. c \<noteq> [] \<and> c \<notin> set ex) xs"
      by auto
    moreover have "add_class x ex = ex"
      using False by (auto simp: add_class_def)
    ultimately show ?thesis
      using Cons.IH[of ex] by simp
  qed
qed

lemma split_space_no_space: "w \<in> set (split_space v) \<Longrightarrow> CHR '' '' \<notin> set w"
  by (induction v arbitrary: w) (auto split: if_splits list.splits)

text \<open>
  C5 (amended). Merging a \<^verbatim>\<open>class\<close> value into a bag stores, under the key
  \<^verbatim>\<open>className\<close>, a token sequence, never a joined string: the sequence the bag held before
  (empty when the entry was missing or not an array, with the language class of a code
  node added), followed by each non-empty piece of the value between space characters
  (U+0020 only) that is not present yet, once, in order of first occurrence. Merging
  \<^verbatim>\<open>a b\<close> and then \<^verbatim>\<open>b c\<close> onto an empty bag gives exactly \<open>[a, b, c]\<close>.
\<close>

theorem class_merge_is_ordered_deduplicating:
  "mergeAttributes target [(''class'', Str v)] node
     = Some (AList.update ''className''
               (Toks (class_tokens_spec (add_lang_class node (existing_classes target)) v)) target)
   \<and> (mergeAttributes [] [(''class'', Str ''a b'')] None \<bind>
        (\<lambda>bag. mergeAttributes bag [(''class'', Str ''b c'')] None))
       = Some [(''className'', Toks [''a'', ''b'', ''c''])]"
proof -
  have "mergeAttributes target [(''class'', Str v)] node
     = Some (AList.update ''className''
               (Toks (class_tokens_spec (add_lang_class node (existing_classes target)) v)) target)"
    by (simp add: fold_add_class class_tokens_spec_def Let_def)
  moreover have "(mergeAttributes [] [(''class'', Str ''a b'')] None \<bind>
        (\<lambda>bag. mergeAttributes bag [(''class'', Str ''b c'')] None))
       = Some [(''className'', Toks [''a'', ''b'', ''c''])]"
    by (simp add: add_class_def add_lang_class_def existing_classes_def)
  ultimately show ?thesis by simp
qed

text \<open>
  C5 as stated splits on whitespace. The value \<^verbatim>\<open>a<TAB>b\<close> is one class for the code,
  which splits on the space character; split on whitespace it is the two classes
  \<open>a\<close> and \<open>b\<close>.
\<close>

theorem class_split_is_on_space_only:
  "mergeAttributes [] [(''class'', Str [CHR ''a'', CHR 0x09, CHR ''b''])] None
     = Some [(''className'', Toks [[CHR ''a'', CHR 0x09, CHR ''b'']])]
   \<and> mergeAttributes [] [(''class'', Str [CHR ''a'', CHR 0x09, CHR ''b''])] None
     \<noteq> Some [(''className'',
               Toks (fold add_class (split_whitespace [CHR ''a'', CHR 0x09, CHR ''b'']) []))]
   \<and> filter (\<lambda>t. t \<noteq> []) (split_whitespace [CHR ''a'', CHR 0x09, CHR ''b'']) = [''a'', ''b'']"
  by (simp add: add_class_def add_lang_class_def existing_classes_def is_whitespace_def)

section \<open>The three rules of the resolver\<close>

text \<open>Merging a fragment's attributes never throws: every value is a string.\<close>

lemma mergeAttributes_str_total: "\<exists>b. mergeAttributes target (str_attrs a) node = Some b"
  by (induction a arbitrary: target) (auto simp: str_attrs_def Let_def)

lemma mergeAttributesToNode_str_total: "\<exists>n'. mergeAttributesToNode n (str_attrs a) = Some n'"
  using mergeAttributes_str_total[of _ a "Some n"]
  by (simp add: mergeAttributesToNode_def Let_def) (metis bind.bind_lunit)

lemma mergeAttributesToNode_frame:
  assumes "mergeAttributesToNode n b = Some n'"
  shows "ntype (props n') = ntype (props n)" "position (props n') = position (props n)"
    "nvalue (props n') = nvalue (props n)" "attributes (props n') = attributes (props n)"
    "lang (props n') = lang (props n)" "spread (props n') = spread (props n)"
    "data (props n') \<bind> mdastAttributes = data (props n) \<bind> mdastAttributes"
  using assms
  by (auto simp: mergeAttributesToNode_def Let_def empty_data_def split: bind_splits option.splits)

text \<open>Rule A's condition in the words of the specification: a previous sibling exists,
  its kind is inline-capable, and both offsets are there with a gap of exactly zero.\<close>

definition rule1_applies :: "node list \<Rightarrow> nat \<Rightarrow> node \<Rightarrow> bool" where
  "rule1_applies cs index attrNode =
     (0 < index \<and> ntype (props (cs ! (index - 1))) \<in> INLINE_TYPES
      \<and> (case (end_offset (cs ! (index - 1)), start_offset attrNode) of
            (Some e, Some s) \<Rightarrow> s - e = 0 | _ \<Rightarrow> False))"

text \<open>Rule B's condition: the fragment is the last child and the parent is not
  inline-capable.\<close>

definition rule2_applies :: "node \<Rightarrow> node list \<Rightarrow> nat \<Rightarrow> bool" where
  "rule2_applies parent cs index = (Suc index = length cs \<and> ntype (props parent) \<notin> INLINE_TYPES)"

lemma getPositionGap_zero:
  "getPositionGap b a = 0 \<longleftrightarrow> (case (end_offset b, start_offset a) of (Some e, Some s) \<Rightarrow> s - e = 0 | _ \<Rightarrow> False)"
  by (auto simp: getPositionGap_def split: option.splits)

lemma handle_rule1:
  assumes "children parent = Some cs" "index < length cs" "rule1_applies cs index attrNode"
  shows "\<exists>prev'. mergeAttributesToNode (cs ! (index - 1)) (str_attrs (attributes (props attrNode))) = Some prev'
          \<and> handleAttributeNode parent index attrNode
              = Some (Node (props parent) (Some (take (index - 1) cs @ prev' # drop (Suc index) cs)))"
proof -
  obtain prev' where m: "mergeAttributesToNode (cs ! (index - 1)) (str_attrs (attributes (props attrNode))) = Some prev'"
    using mergeAttributesToNode_str_total by blast
  from assms(3) have pos: "0 < index" by (simp add: rule1_applies_def)
  with assms(2) have "splice1 index (cs[index - 1 := prev']) = take (index - 1) cs @ prev' # drop (Suc index) cs"
    by (cases index) (simp_all add: splice1_def take_Suc_conv_app_nth)
  with assms m show ?thesis
    by (simp add: handleAttributeNode_def rule1_applies_def getPositionGap_zero)
qed

lemma handle_rule2:
  assumes "children parent = Some cs" "index < length cs" "\<not> rule1_applies cs index attrNode"
    "rule2_applies parent cs index"
  shows "\<exists>parent'. mergeAttributesToNode parent (str_attrs (attributes (props attrNode))) = Some parent'
          \<and> handleAttributeNode parent index attrNode = Some (Node (props parent') (Some (take index cs)))"
proof -
  obtain parent' where m: "mergeAttributesToNode parent (str_attrs (attributes (props attrNode))) = Some parent'"
    using mergeAttributesToNode_str_total by blast
  from assms(4) have "splice1 index cs = take index cs"
    by (simp add: splice1_def rule2_applies_def)
  moreover from assms(2,4) have "index = length cs - 1"
    by (auto simp: rule2_applies_def)
  ultimately show ?thesis using assms m
    by (auto simp: handleAttributeNode_def rule1_applies_def rule2_applies_def getPositionGap_zero Let_def)
qed

lemma handle_rule3:
  assumes "children parent = Some cs" "index < length cs" "\<not> rule1_applies cs index attrNode"
    "\<not> rule2_applies parent cs index"
  shows "handleAttributeNode parent index attrNode = Some (Node (props parent) (Some (cs[index := textNode attrNode])))"
proof -
  from assms(2,4) have "\<not> (index = length cs - 1 \<and> ntype (props parent) \<notin> INLINE_TYPES)"
    by (auto simp: rule2_applies_def)
  then show ?thesis using assms
    by (auto simp: handleAttributeNode_def rule1_applies_def getPositionGap_zero Let_def)
qed


text \<open>
  C2. For a fragment at \<open>index\<close> of its parent's children: when Rule A's condition holds,
  the attributes are merged into the previous sibling and the fragment is removed; when
  it does not, the call still returns, with the result of Rule B (merge into the parent)
  or Rule C (text node), which leave every sibling before the fragment as it was. The
  condition fails when there is no previous sibling, when it is not inline-capable, when
  either offset is missing (the gap is then \<open>-1\<close>) and when the gap is not zero.
\<close>

theorem rule_A_inline_zero_gap:
  assumes "children parent = Some cs" and "index < length cs"
  shows "(rule1_applies cs index attrNode \<longrightarrow>
            (\<exists>prev'. mergeAttributesToNode (cs ! (index - 1)) (str_attrs (attributes (props attrNode))) = Some prev'
               \<and> handleAttributeNode parent index attrNode
                   = Some (Node (props parent) (Some (take (index - 1) cs @ prev' # drop (Suc index) cs)))))
       \<and> (\<not> rule1_applies cs index attrNode \<longrightarrow>
            (\<exists>parent'. mergeAttributesToNode parent (str_attrs (attributes (props attrNode))) = Some parent'
               \<and> handleAttributeNode parent index attrNode
                   = Some (if rule2_applies parent cs index
                           then Node (props parent') (Some (take index cs))
                           else Node (props parent) (Some (cs[index := textNode attrNode])))))
       \<and> (index = 0 \<or> ntype (props (cs ! (index - 1))) \<notin> INLINE_TYPES
            \<or> end_offset (cs ! (index - 1)) = None \<or> start_offset attrNode = None
            \<or> getPositionGap (cs ! (index - 1)) attrNode \<noteq> 0
          \<longrightarrow> \<not> rule1_applies cs index attrNode)
       \<and> (end_offset (cs ! (index - 1)) = None \<or> start_offset attrNode = None
          \<longrightarrow> getPositionGap (cs ! (index - 1)) attrNode = - 1)"
proof (intro conjI impI)
  assume "rule1_applies cs index attrNode"
  with assms show "\<exists>prev'. mergeAttributesToNode (cs ! (index - 1)) (str_attrs (attributes (props attrNode))) = Some prev'
               \<and> handleAttributeNode parent index attrNode
                   = Some (Node (props parent) (Some (take (index - 1) cs @ prev' # drop (Suc index) cs)))"
    by (rule handle_rule1)
next
  assume n1: "\<not> rule1_applies cs index attrNode"
  show "\<exists>parent'. mergeAttributesToNode parent (str_attrs (attributes (props attrNode))) = Some parent'
               \<and> handleAttributeNode parent index attrNode
                   = Some (if rule2_applies parent cs index
                           then Node (props parent') (Some (take index cs))
                           else Node (props parent) (Some (cs[index := textNode attrNode])))"
  proof (cases "rule2_applies parent cs index")
    case True
    with handle_rule2[OF assms n1] show ?thesis by simp
  next
    case False
    with handle_rule3[OF assms n1] mergeAttributesToNode_str_total[of parent "attributes (props attrNode)"]
    show ?thesis by auto
  qed
next
  assume "index = 0 \<or> ntype (props (cs ! (index - 1))) \<notin> INLINE_TYPES
            \<or> end_offset (cs ! (index - 1)) = None \<or> start_offset attrNode = None
            \<or> getPositionGap (cs ! (index - 1)) attrNode \<noteq> 0"
  then show "\<not> rule1_applies cs index attrNode"
    by (auto simp: rule1_applies_def getPositionGap_def split: option.splits)
next
  assume "end_offset (cs ! (index - 1)) = None \<or> start_offset attrNode = None"
  then show "getPositionGap (cs ! (index - 1)) attrNode = - 1"
    by (auto simp: getPositionGap_def split: option.splits)
qed

text \<open>An emphasis node ending at offset 4, followed by a fragment at gap 0, at gap 1 and
  without position.\<close>

definition ex_em :: node where
  "ex_em = Node ((bare ''emphasis'')\<lparr>position := span 1 0 1 4\<rparr>)
             (Some [Node ((bare ''text'')\<lparr>nvalue := Some ''em'', position := span 1 1 1 3\<rparr>) None])"

theorem rule_A_inline_zero_gap_witness:
  "handleAttributeNode (Node (bare ''paragraph'') (Some [ex_em, frag [(''id'', ''x'')] ''{#x}'' (span 1 4 1 8)])) 1
       (frag [(''id'', ''x'')] ''{#x}'' (span 1 4 1 8))
     = Some (Node (bare ''paragraph'') (Some [bagged [(''id'', Str ''x'')] ex_em]))
   \<and> handleAttributeNode (Node (bare ''paragraph'') (Some [ex_em, frag [(''id'', ''x'')] ''{#x}'' (span 1 5 1 9)])) 1
       (frag [(''id'', ''x'')] ''{#x}'' (span 1 5 1 9))
     = Some (bagged [(''id'', Str ''x'')] (Node (bare ''paragraph'') (Some [ex_em])))
   \<and> handleAttributeNode (Node (bare ''paragraph'') (Some [ex_em, frag [(''id'', ''x'')] ''{#x}'' None])) 1
       (frag [(''id'', ''x'')] ''{#x}'' None)
     = Some (bagged [(''id'', Str ''x'')] (Node (bare ''paragraph'') (Some [ex_em])))"
  using rule_A_inline_zero_gap[of "Node (bare ''paragraph'') (Some [ex_em, frag [(''id'', ''x'')] ''{#x}'' (span 1 4 1 8)])"
                  "[ex_em, frag [(''id'', ''x'')] ''{#x}'' (span 1 4 1 8)]" 1
                  "frag [(''id'', ''x'')] ''{#x}'' (span 1 4 1 8)"]
        rule_A_inline_zero_gap[of "Node (bare ''paragraph'') (Some [ex_em, frag [(''id'', ''x'')] ''{#x}'' (span 1 5 1 9)])"
                  "[ex_em, frag [(''id'', ''x'')] ''{#x}'' (span 1 5 1 9)]" 1
                  "frag [(''id'', ''x'')] ''{#x}'' (span 1 5 1 9)"]
        rule_A_inline_zero_gap[of "Node (bare ''paragraph'') (Some [ex_em, frag [(''id'', ''x'')] ''{#x}'' None])"
                  "[ex_em, frag [(''id'', ''x'')] ''{#x}'' None]" 1
                  "frag [(''id'', ''x'')] ''{#x}'' None"]
  by (simp add: rule1_applies_def rule2_applies_def ex_em_def bare_def span_def frag_def bagged_def
        INLINE_TYPES_def end_offset_def start_offset_def getPositionGap_def
        mergeAttributesToNode_def str_attrs_def empty_data_def)


text \<open>
  C4. When Rule A does not apply: a fragment that is the last child of a parent whose kind
  is not inline-capable is merged into the parent and removed, whatever the parent's kind
  otherwise is; when the fragment is not the last child, or the parent is inline-capable,
  the parent's own fields stay as they were and it keeps as many children.
\<close>

theorem rule_B_last_child_of_non_inline_parent:
  assumes "children parent = Some cs" and "index < length cs"
    and "\<not> rule1_applies cs index attrNode"
  shows "(Suc index = length cs \<and> ntype (props parent) \<notin> INLINE_TYPES \<longrightarrow>
            (\<exists>parent'. mergeAttributesToNode parent (str_attrs (attributes (props attrNode))) = Some parent'
               \<and> handleAttributeNode parent index attrNode
                   = Some (Node (props parent') (Some (take index cs)))))
       \<and> (Suc index \<noteq> length cs \<or> ntype (props parent) \<in> INLINE_TYPES \<longrightarrow>
            (\<exists>cs'. handleAttributeNode parent index attrNode = Some (Node (props parent) (Some cs'))
               \<and> length cs' = length cs))"
proof (intro conjI impI)
  assume "Suc index = length cs \<and> ntype (props parent) \<notin> INLINE_TYPES"
  then have "rule2_applies parent cs index" by (simp add: rule2_applies_def)
  from handle_rule2[OF assms this]
  show "\<exists>parent'. mergeAttributesToNode parent (str_attrs (attributes (props attrNode))) = Some parent'
               \<and> handleAttributeNode parent index attrNode
                   = Some (Node (props parent') (Some (take index cs)))" .
next
  assume "Suc index \<noteq> length cs \<or> ntype (props parent) \<in> INLINE_TYPES"
  then have "\<not> rule2_applies parent cs index" by (auto simp: rule2_applies_def)
  from handle_rule3[OF assms this]
  show "\<exists>cs'. handleAttributeNode parent index attrNode = Some (Node (props parent) (Some cs'))
               \<and> length cs' = length cs"
    by simp
qed

theorem rule_B_last_child_of_non_inline_parent_witness:
  "handleAttributeNode
      (Node (bare ''containerDirective'') (Some [ex_em, frag [(''id'', ''x'')] ''{#x}'' (span 1 5 1 9)])) 1
      (frag [(''id'', ''x'')] ''{#x}'' (span 1 5 1 9))
     = Some (bagged [(''id'', Str ''x'')] (Node (bare ''containerDirective'') (Some [ex_em])))
   \<and> handleAttributeNode
      (Node (bare ''link'') (Some [ex_em, frag [(''id'', ''x'')] ''{#x}'' (span 1 5 1 9)])) 1
      (frag [(''id'', ''x'')] ''{#x}'' (span 1 5 1 9))
     = Some (Node (bare ''link'') (Some [ex_em, textNode (frag [(''id'', ''x'')] ''{#x}'' (span 1 5 1 9))]))
   \<and> handleAttributeNode
      (Node (bare ''paragraph'') (Some [frag [(''id'', ''x'')] ''{#x}'' (span 1 0 1 4), ex_em])) 0
      (frag [(''id'', ''x'')] ''{#x}'' (span 1 0 1 4))
     = Some (Node (bare ''paragraph'') (Some [textNode (frag [(''id'', ''x'')] ''{#x}'' (span 1 0 1 4)), ex_em]))"
  using rule_B_last_child_of_non_inline_parent[of "Node (bare ''containerDirective'') (Some [ex_em, frag [(''id'', ''x'')] ''{#x}'' (span 1 5 1 9)])"
                  "[ex_em, frag [(''id'', ''x'')] ''{#x}'' (span 1 5 1 9)]" 1
                  "frag [(''id'', ''x'')] ''{#x}'' (span 1 5 1 9)"]
        rule_B_last_child_of_non_inline_parent[of "Node (bare ''link'') (Some [ex_em, frag [(''id'', ''x'')] ''{#x}'' (span 1 5 1 9)])"
                  "[ex_em, frag [(''id'', ''x'')] ''{#x}'' (span 1 5 1 9)]" 1
                  "frag [(''id'', ''x'')] ''{#x}'' (span 1 5 1 9)"]
        rule_B_last_child_of_non_inline_parent[of "Node (bare ''paragraph'') (Some [frag [(''id'', ''x'')] ''{#x}'' (span 1 0 1 4), ex_em])"
                  "[frag [(''id'', ''x'')] ''{#x}'' (span 1 0 1 4), ex_em]" 0
                  "frag [(''id'', ''x'')] ''{#x}'' (span 1 0 1 4)"]
  by (simp add: rule1_applies_def ex_em_def bare_def span_def frag_def bagged_def
        INLINE_TYPES_def end_offset_def start_offset_def getPositionGap_def handleAttributeNode_def
        mergeAttributesToNode_def str_attrs_def empty_data_def splice1_def)

text \<open>
  C3. When neither Rule A nor Rule B applies, the fragment is replaced at its index by a
  text node: the parent keeps its fields and its number of children, every other child
  stays, and the text node has the fragment's \<^verbatim>\<open>value\<close> and \<^verbatim>\<open>position\<close> (the position
  missing exactly when the fragment had none) and no children.
\<close>

theorem rule_C_orphan_becomes_text:
  assumes "children parent = Some cs" and "index < length cs"
    and "\<not> rule1_applies cs index attrNode"
    and "\<not> (Suc index = length cs \<and> ntype (props parent) \<notin> INLINE_TYPES)"
  shows "\<exists>cs'. handleAttributeNode parent index attrNode = Some (Node (props parent) (Some cs'))
           \<and> length cs' = length cs
           \<and> cs' ! index = textNode attrNode
           \<and> (\<forall>j < length cs. j \<noteq> index \<longrightarrow> cs' ! j = cs ! j)
           \<and> ntype (props (textNode attrNode)) = ''text''
           \<and> nvalue (props (textNode attrNode)) = nvalue (props attrNode)
           \<and> position (props (textNode attrNode)) = position (props attrNode)
           \<and> children (textNode attrNode) = None"
proof -
  from assms(4) have "\<not> rule2_applies parent cs index" by (simp add: rule2_applies_def)
  from handle_rule3[OF assms(1-3) this] assms(2) show ?thesis
    by (simp add: textNode_def)
qed

theorem rule_C_orphan_becomes_text_witness:
  "\<exists>cs'. handleAttributeNode
      (Node (bare ''paragraph'')
         (Some [Node (bare ''text'') None, frag [(''class'', ''c'')] ''{.c}'' (span 1 7 1 11),
                Node (bare ''text'') None])) 1
      (frag [(''class'', ''c'')] ''{.c}'' (span 1 7 1 11))
     = Some (Node (bare ''paragraph'') (Some cs'))
     \<and> length cs' = 3
     \<and> cs' ! 1 = Node ((bare ''text'')\<lparr>nvalue := Some ''{.c}'', position := span 1 7 1 11\<rparr>) None
     \<and> cs' ! 0 = Node (bare ''text'') None
     \<and> cs' ! 2 = Node (bare ''text'') None"
proof -
  let ?f = "frag [(''class'', ''c'')] ''{.c}'' (span 1 7 1 11)"
  let ?cs = "[Node (bare ''text'') None, ?f, Node (bare ''text'') None]"
  have 1: "children (Node (bare ''paragraph'') (Some ?cs)) = Some ?cs" by simp
  have 2: "1 < length ?cs" by simp
  have 3: "\<not> rule1_applies ?cs 1 ?f"
    by (simp add: rule1_applies_def bare_def INLINE_TYPES_def)
  have 4: "\<not> (Suc 1 = length ?cs \<and> ntype (props (Node (bare ''paragraph'') (Some ?cs))) \<notin> INLINE_TYPES)"
    by simp
  from rule_C_orphan_becomes_text[OF 1 2 3 4] obtain cs' where
    h: "handleAttributeNode (Node (bare ''paragraph'') (Some ?cs)) 1 ?f
          = Some (Node (props (Node (bare ''paragraph'') (Some ?cs))) (Some cs'))"
    and l: "length cs' = length ?cs" and t: "cs' ! 1 = textNode ?f"
    and o: "\<forall>j<length ?cs. j \<noteq> 1 \<longrightarrow> cs' ! j = ?cs ! j"
    by blast
  from o have "cs' ! 0 = ?cs ! 0" and "cs' ! 2 = ?cs ! 2" by simp_all
  with h l t show ?thesis
    by (simp add: textNode_def frag_def bare_def)
qed


section \<open>Forward attachment of standalone paragraphs\<close>

lemma standalone_paragraph_untouched:
  assumes "ntype (props child) = ''paragraph''" "children child = Some [f]"
    "ntype (props f) = ''mdastAttributes''" "children f = None"
  shows "processStandaloneInParent child = Some child"
  using assms
  by (cases child)
    (simp add: getStandaloneAttributesFromParagraph_def processStandaloneInParent.simps
      standalone_loop_Cons[of f "[]"])

text \<open>Direct adjacency in the words of the specification: both lines are there and the
  first node's end line is exactly one less than the second node's start line.\<close>

definition line_adjacent :: "node \<Rightarrow> node \<Rightarrow> bool" where
  "line_adjacent first second =
     (case (end_line first, start_line second) of
        (Some e, Some s) \<Rightarrow> e = s - 1 | _ \<Rightarrow> False)"

text \<open>
  C7. At a standalone attribute paragraph (a paragraph whose only child is a fragment,
  itself without children) the forward loop merges the fragment's attributes into the
  next sibling and goes on without the paragraph exactly when there is a next sibling
  and the two are directly adjacent; otherwise this round changes nothing and the loop
  moves to the next sibling. A gap of two lines and a missing line on either node are not
  adjacent.
\<close>

theorem standalone_attachment_needs_adjacent_lines:
  assumes "ntype (props child) = ''paragraph''" and "children child = Some [f]"
    and "ntype (props f) = ''mdastAttributes''" and "children f = None"
  shows "(rest \<noteq> [] \<and> line_adjacent child (hd rest) \<longrightarrow>
            (\<exists>next'. mergeAttributesToNode (hd rest) (str_attrs (attributes (props f))) = Some next'
               \<and> standalone_loop (child # rest) = standalone_loop (next' # tl rest)))
       \<and> (rest = [] \<or> \<not> line_adjacent child (hd rest) \<longrightarrow>
            standalone_loop (child # rest) = standalone_loop rest \<bind> (\<lambda>rest'. Some (child # rest')))
       \<and> (rest \<noteq> [] \<and> (end_line child = None \<or> start_line (hd rest) = None
              \<or> (\<exists>e. end_line child = Some e \<and> start_line (hd rest) = Some (e + 2)))
            \<longrightarrow> \<not> line_adjacent child (hd rest))"
proof -
  have g: "getStandaloneAttributesFromParagraph child = Some (Some f)"
    using assms by (simp add: getStandaloneAttributesFromParagraph_def)
  have adj: "areDirectlyAdjacent child n = line_adjacent child n" for n
    by (auto simp: areDirectlyAdjacent_def line_adjacent_def split: option.splits)
  obtain next' where m: "mergeAttributesToNode (hd rest) (str_attrs (attributes (props f))) = Some next'"
    using mergeAttributesToNode_str_total by blast
  have u: "processStandaloneInParent child = Some child"
    using assms by (rule standalone_paragraph_untouched)
  have a: "rest \<noteq> [] \<and> line_adjacent child (hd rest) \<longrightarrow>
            (\<exists>next'. mergeAttributesToNode (hd rest) (str_attrs (attributes (props f))) = Some next'
               \<and> standalone_loop (child # rest) = standalone_loop (next' # tl rest))"
    using g m by (simp add: adj standalone_loop_Cons[of child rest])
  have b: "rest = [] \<or> \<not> line_adjacent child (hd rest) \<longrightarrow>
            standalone_loop (child # rest) = standalone_loop rest \<bind> (\<lambda>rest'. Some (child # rest'))"
    using g u assms(2) by (auto simp: adj standalone_loop_Cons[of child rest])
  have c: "rest \<noteq> [] \<and> (end_line child = None \<or> start_line (hd rest) = None
              \<or> (\<exists>e. end_line child = Some e \<and> start_line (hd rest) = Some (e + 2)))
            \<longrightarrow> \<not> line_adjacent child (hd rest)"
    by (auto simp: line_adjacent_def split: option.splits)
  from a b c show ?thesis by blast
qed

text \<open>A heading on the given line.\<close>

definition ex_H :: "int \<Rightarrow> node" where
  "ex_H l = Node ((bare ''heading'')\<lparr>position := span l 10 l 13\<rparr>)
            (Some [Node ((bare ''text'')\<lparr>nvalue := Some ''H'', position := span l 12 l 13\<rparr>) None])"

theorem standalone_attachment_needs_adjacent_lines_witness:
  "processStandaloneInParent (Node (bare ''root'') (Some [ex_P1, ex_H 2]))
     = Some (Node (bare ''root'') (Some [bagged [(''id'', Str ''a'')] (ex_H 2)]))
   \<and> processStandaloneInParent (Node (bare ''root'') (Some [ex_P1, ex_H 3]))
     = Some (Node (bare ''root'') (Some [ex_P1, ex_H 3]))
   \<and> processStandaloneInParent (Node (bare ''root'') (Some [ex_P1, Node (bare ''heading'') None]))
     = Some (Node (bare ''root'') (Some [ex_P1, Node (bare ''heading'') None]))"
  using standalone_attachment_needs_adjacent_lines[of ex_P1 "frag [(''id'', ''a'')] ''{#a}'' (span 1 0 1 4)" "[ex_H 2]"]
    standalone_attachment_needs_adjacent_lines[of ex_P1 "frag [(''id'', ''a'')] ''{#a}'' (span 1 0 1 4)" "[ex_H 3]"]
    standalone_attachment_needs_adjacent_lines[of ex_P1 "frag [(''id'', ''a'')] ''{#a}'' (span 1 0 1 4)" "[Node (bare ''heading'') None]"]
  by (simp add: ex_P1_def ex_H_def bare_def span_def frag_def bagged_def line_adjacent_def
      end_line_def start_line_def getStandaloneAttributesFromParagraph_def
      mergeAttributesToNode_def str_attrs_def empty_data_def
      processStandaloneInParent.simps standalone_loop_Cons areDirectlyAdjacent_def)


section \<open>The language class of code blocks\<close>

lemma existing_classes_update_other:
  "k \<noteq> ''className'' \<Longrightarrow> existing_classes (AList.update k v t) = existing_classes t"
  by (simp add: existing_classes_def update_conv')

lemma mergeAttributes_plain_keys:
  assumes "''class'' \<notin> fst ` set src" and "''className'' \<notin> fst ` set src"
  shows "\<exists>b. mergeAttributes target (str_attrs src) node = Some b
           \<and> map_of b ''className'' = map_of target ''className''"
  using assms
proof (induction src arbitrary: target)
  case Nil
  then show ?case by (simp add: str_attrs_def)
next
  case (Cons e src)
  obtain k w where e: "e = (k, w)" by (cases e)
  with Cons.prems have k: "k \<noteq> ''class''" "k \<noteq> ''className''"
    and rest: "''class'' \<notin> fst ` set src" "''className'' \<notin> fst ` set src"
    by auto
  from Cons.IH[OF rest, of "AList.update k (Str w) target"] k e show ?case
    by (simp add: str_attrs_def update_conv')
qed

lemma mergeAttributes_class_key:
  assumes "distinct (map fst src)" and "(''class'', v) \<in> set src"
    and "''className'' \<notin> fst ` set src"
  shows "\<exists>b. mergeAttributes target (str_attrs src) node = Some b
           \<and> map_of b ''className''
               = Some (Toks (class_tokens_spec (add_lang_class node (existing_classes target)) v))"
  using assms
proof (induction src arbitrary: target)
  case Nil
  then show ?case by simp
next
  case (Cons e src)
  obtain k w where e: "e = (k, w)" by (cases e)
  show ?case
  proof (cases "k = ''class''")
    case True
    with Cons.prems e have w: "w = v" and rest: "''class'' \<notin> fst ` set src" "''className'' \<notin> fst ` set src"
      by (auto simp: image_iff)
    let ?t = "AList.update ''className''
                (Toks (fold add_class (split_space v) (add_lang_class node (existing_classes target)))) target"
    from mergeAttributes_plain_keys[OF rest, of ?t node]
    obtain b where "mergeAttributes ?t (str_attrs src) node = Some b"
      and "map_of b ''className'' = map_of ?t ''className''" by blast
    with True e w show ?thesis
      by (simp add: str_attrs_def Let_def update_conv' fold_add_class class_tokens_spec_def)
  next
    case False
    with Cons.prems e have k: "k \<noteq> ''className''" and "(''class'', v) \<in> set src"
      and "distinct (map fst src)" and "''className'' \<notin> fst ` set src"
      by auto
    with Cons.IH[of "AList.update k (Str w) target"] False e show ?thesis
      by (simp add: str_attrs_def existing_classes_update_other)
  qed
qed

text \<open>The code-block pass at one node.\<close>

lemma code_block_pass_class:
  assumes "ntype p = ''code''" and "lang p = Some l" and "l \<noteq> []"
    and "data p = Some d" and "mdastAttributes d = Some side"
    and "distinct (map fst side)" and "(''class'', v) \<in> set side"
    and "''className'' \<notin> fst ` set side"
    and "existing_classes (case hProperties d of None \<Rightarrow> [] | Some h \<Rightarrow> h) = []"
  shows "\<exists>hp'. processCodeBlocks (Node p ch)
             = Some (Node (p\<lparr>data := Some (d\<lparr>hProperties := Some hp', mdastAttributes := None\<rparr>)\<rparr>) ch)
           \<and> map_of hp' ''className''
               = Some (Toks ((''language-'' @ l) #
                    first_occurrences (filter (\<lambda>c. c \<noteq> [] \<and> c \<noteq> ''language-'' @ l) (split_space v))))"
proof -
  let ?hp = "case hProperties d of None \<Rightarrow> [] | Some h \<Rightarrow> h"
  from mergeAttributes_class_key[OF assms(6-8), of ?hp "Some (Node p ch)"]
  obtain hp' where m: "mergeAttributes ?hp (str_attrs side) (Some (Node p ch)) = Some hp'"
    and c: "map_of hp' ''className''
              = Some (Toks (class_tokens_spec (add_lang_class (Some (Node p ch)) (existing_classes ?hp)) v))"
    by blast
  let ?p' = "p\<lparr>data := Some (d\<lparr>hProperties := Some hp', mdastAttributes := None\<rparr>)\<rparr>"
  have run: "processCodeBlocks (Node p ch) = Some (Node ?p' ch)"
    using assms(1,4,5) m by simp
  have toks: "class_tokens_spec (add_lang_class (Some (Node p ch)) (existing_classes ?hp)) v
        = (''language-'' @ l) #
             first_occurrences (filter (\<lambda>c. c \<noteq> [] \<and> c \<noteq> ''language-'' @ l) (split_space v))"
    using assms(1-3,9) by (simp add: add_lang_class_def class_tokens_spec_def)
  from run c toks show ?thesis by auto
qed

text \<open>A fenced block of language \<^verbatim>\<open>js\<close> with a side-channel map and a bag.\<close>

definition ex_code :: "attrs \<Rightarrow> bag option \<Rightarrow> node" where
  "ex_code side hp =
     Node ((bare ''code'')\<lparr>lang := Some ''js'', nvalue := Some ''x'',
            data := Some \<lparr>hProperties = hp, mdastAttributes = Some side\<rparr>\<rparr>) None"


section \<open>Promotion in tight lists\<close>

text \<open>The non-empty bags of the paragraphs among the given nodes, in order.\<close>

definition paragraph_bags :: "node list \<Rightarrow> bag list" where
  "paragraph_bags gs = List.map_filter promotable gs"

text \<open>A paragraph with a non-empty bag loses it; any other node stays.\<close>

definition clear_promoted :: "node \<Rightarrow> node" where
  "clear_promoted g = (if promotable g = None then g else delete_hProperties g)"

text \<open>A non-spread list: \<^verbatim>\<open>node.type === 'list' && !node.spread\<close>.\<close>

definition tight_list :: "node \<Rightarrow> bool" where
  "tight_list n = (ntype (props n) = ''list'' \<and> spread (props n) \<noteq> Some True)"

lemma promote_grandchildren_clears:
  "promote_grandchildren item gs = Some (item', gs') \<Longrightarrow> gs' = map clear_promoted gs"
proof (induction gs arbitrary: item item' gs')
  case Nil
  then show ?case by simp
next
  case (Cons g gs)
  show ?case
  proof (cases "promotable g")
    case None
    with Cons.prems obtain r where "promote_grandchildren item gs = Some (item', r)" "gs' = g # r"
      by (auto split: bind_splits)
    with Cons.IH[of item item' r] None show ?thesis by (simp add: clear_promoted_def)
  next
    case (Some hp)
    with Cons.prems obtain i1 r where "promote_grandchildren i1 gs = Some (item', r)"
      "gs' = delete_hProperties g # r"
      by (auto split: bind_splits)
    with Cons.IH[of i1 item' r] Some show ?thesis by (simp add: clear_promoted_def)
  qed
qed

lemma promote_grandchildren_frame:
  "promote_grandchildren item gs = Some (item', gs') \<Longrightarrow>
     ntype (props item') = ntype (props item) \<and> spread (props item') = spread (props item)
     \<and> children item' = children item
     \<and> data (props item') \<bind> mdastAttributes = data (props item) \<bind> mdastAttributes"
proof (induction gs arbitrary: item item' gs')
  case Nil
  then show ?case by simp
next
  case (Cons g gs)
  show ?case
  proof (cases "promotable g")
    case None
    with Cons.prems obtain r where "promote_grandchildren item gs = Some (item', r)"
      by (auto split: bind_splits)
    from Cons.IH[OF this] show ?thesis .
  next
    case (Some hp)
    with Cons.prems obtain i1 r where 1: "mergeAttributesToNode item hp = Some i1"
      and 2: "promote_grandchildren i1 gs = Some (item', r)"
      by (auto split: bind_splits)
    from Cons.IH[OF 2] mergeAttributesToNode_frame[OF 1] mergeAttributesToNode_children[OF 1]
    show ?thesis by simp
  qed
qed

lemma promote_grandchildren_done:
  "paragraph_bags gs = [] \<Longrightarrow> promote_grandchildren item gs = Some (item, gs)"
  by (induction gs) (auto simp: paragraph_bags_def map_filter_simps split: option.splits)

lemma promote_child_item:
  assumes "promote_child c = Some c'" and "ntype (props c) = ''listItem''"
  shows "\<exists>gs item'. children c = Some gs
           \<and> promote_grandchildren c gs = Some (item', map clear_promoted gs)
           \<and> c' = Node (props item') (Some (map clear_promoted gs))"
proof -
  from assms obtain gs item' gs' where gs: "children c = Some gs"
    and p: "promote_grandchildren c gs = Some (item', gs')"
    and c': "c' = Node (props item') (Some gs')"
    by (auto simp: promote_child_def split: option.splits bind_splits)
  from promote_grandchildren_clears[OF p] gs p c' show ?thesis by simp
qed

lemma promote_child_other: "ntype (props c) \<noteq> ''listItem'' \<Longrightarrow> promote_child c = Some c"
  by (simp add: promote_child_def)

lemma those_map_Some:
  "those (map f xs) = Some ys \<longleftrightarrow> length ys = length xs \<and> (\<forall>i<length xs. f (xs ! i) = Some (ys ! i))"
proof (induction xs arbitrary: ys)
  case Nil
  then show ?case by auto
next
  case (Cons x xs)
  show ?case
  proof (cases "f x")
    case None
    then show ?thesis by (auto simp: nth_Cons split: nat.splits)
  next
    case (Some y)
    show ?thesis
    proof (cases "those (map f xs)")
      case None
      with Cons.IH have no: "\<And>zs. \<not> (length zs = length xs \<and> (\<forall>i<length xs. f (xs ! i) = Some (zs ! i)))"
        by simp
      have "\<not> (length ys = length (x # xs) \<and> (\<forall>i<length (x # xs). f ((x # xs) ! i) = Some (ys ! i)))"
      proof
        assume a: "length ys = length (x # xs) \<and> (\<forall>i<length (x # xs). f ((x # xs) ! i) = Some (ys ! i))"
        then obtain y' zs where ys: "ys = y' # zs" by (cases ys) auto
        with a have "length zs = length xs \<and> (\<forall>i<length xs. f (xs ! i) = Some (zs ! i))"
          by auto
        with no show False by blast
      qed
      with None Some show ?thesis by simp
    next
      case (Some zs)
      with Cons.IH[of zs] have zs: "length zs = length xs" "\<forall>i<length xs. f (xs ! i) = Some (zs ! i)"
        by auto
      show ?thesis
      proof
        assume "those (map f (x # xs)) = Some ys"
        with Some \<open>f x = Some y\<close> have "ys = y # zs" by simp
        with zs \<open>f x = Some y\<close> show "length ys = length (x # xs) \<and> (\<forall>i<length (x # xs). f ((x # xs) ! i) = Some (ys ! i))"
          by (auto simp: nth_Cons split: nat.splits)
      next
        assume a: "length ys = length (x # xs) \<and> (\<forall>i<length (x # xs). f ((x # xs) ! i) = Some (ys ! i))"
        then obtain y' ws where ys: "ys = y' # ws" by (cases ys) auto
        with a \<open>f x = Some y\<close> have "y' = y" by auto
        from ys a have "length ws = length xs \<and> (\<forall>i<length xs. f (xs ! i) = Some (ws ! i))" by auto
        with Cons.IH[of ws] Some have "ws = zs" by simp
        with ys \<open>y' = y\<close> Some \<open>f x = Some y\<close> show "those (map f (x # xs)) = Some ys" by simp
      qed
    qed
  qed
qed

lemma promote_props: "promoteTightListAttributes n = Some n' \<Longrightarrow> props n' = props n"
  by (cases "children n")
    (auto simp: promoteTightListAttributes.simps[of n] split: bind_splits if_splits)


text \<open>A bag whose \<^verbatim>\<open>class\<close> entry, if any, is a string: the bags that \<^verbatim>\<open>mergeAttributes\<close>
  takes as a source without throwing.\<close>

definition class_is_string :: "bag \<Rightarrow> bool" where
  "class_is_string b = list_all (\<lambda>(k, v). k \<noteq> ''class'' \<or> (case v of Str _ \<Rightarrow> True | Toks _ \<Rightarrow> False)) b"

text \<open>A list item has \<^verbatim>\<open>children\<close>, and the bags of its paragraphs can be merged.\<close>

definition item_safe :: "node \<Rightarrow> bool" where
  "item_safe c =
     (ntype (props c) \<noteq> ''listItem'' \<or>
      (case children c of
         None \<Rightarrow> False
       | Some gs \<Rightarrow> list_all class_is_string (paragraph_bags gs)))"

text \<open>The trees on which the tight-list pass does not throw.\<close>

fun promotion_safe :: "node \<Rightarrow> bool" where
  "promotion_safe (Node p ch) =
     (case ch of
        None \<Rightarrow> True
      | Some cs \<Rightarrow>
          (\<not> tight_list (Node p ch) \<or> list_all item_safe cs) \<and> list_all promotion_safe cs)"

lemma mergeAttributes_total_iff:
  "mergeAttributes target src node \<noteq> None \<longleftrightarrow> class_is_string src"
proof (induction src arbitrary: target)
  case Nil
  then show ?case by (simp add: class_is_string_def)
next
  case (Cons e src)
  obtain k v where e: "e = (k, v)" by (cases e)
  have tl: "class_is_string (e # src) \<longleftrightarrow>
            (k \<noteq> ''class'' \<or> (case v of Str _ \<Rightarrow> True | Toks _ \<Rightarrow> False)) \<and> class_is_string src"
    using e by (simp add: class_is_string_def)
  show ?case
  proof (cases "k = ''class''")
    case True
    then show ?thesis using e tl Cons.IH
      by (cases v) (simp_all add: Let_def)
  next
    case False
    then show ?thesis using e tl Cons.IH by simp
  qed
qed

lemma mergeAttributesToNode_total_iff:
  "mergeAttributesToNode n b \<noteq> None \<longleftrightarrow> class_is_string b"
  using mergeAttributes_total_iff[of
      "case hProperties (case data (props n) of None \<Rightarrow> empty_data | Some d \<Rightarrow> d) of
         None \<Rightarrow> [] | Some h \<Rightarrow> h" b "Some n"]
  by (auto simp: mergeAttributesToNode_def Let_def split: bind_splits)

lemma promote_grandchildren_total:
  "list_all class_is_string (paragraph_bags gs) \<Longrightarrow> promote_grandchildren item gs \<noteq> None"
proof (induction gs arbitrary: item)
  case Nil
  then show ?case by simp
next
  case (Cons g gs)
  show ?case
  proof (cases "promotable g")
    case None
    with Cons.prems have "list_all class_is_string (paragraph_bags gs)"
      by (simp add: paragraph_bags_def map_filter_simps)
    from Cons.IH[OF this, of item] None show ?thesis by auto
  next
    case (Some hp)
    with Cons.prems have hp: "class_is_string hp" and r: "list_all class_is_string (paragraph_bags gs)"
      by (simp_all add: paragraph_bags_def map_filter_simps)
    from hp obtain i1 where "mergeAttributesToNode item hp = Some i1"
      using mergeAttributesToNode_total_iff[of item hp] by auto
    with Cons.IH[OF r, of i1] Some show ?thesis by auto
  qed
qed

lemma promote_child_total: "item_safe c \<Longrightarrow> promote_child c \<noteq> None"
  using promote_grandchildren_total[of "the (children c)" c]
  by (auto simp: item_safe_def promote_child_def split: option.splits)

lemma promotion_safe_clear: "promotion_safe (clear_promoted g) = promotion_safe g"
  by (cases g) (auto simp: clear_promoted_def delete_hProperties_def tight_list_def split: option.splits)

lemma promote_child_safe:
  assumes "promote_child c = Some c'" and "promotion_safe c"
  shows "promotion_safe c'"
proof (cases "ntype (props c) = ''listItem''")
  case False
  with assms show ?thesis by (simp add: promote_child_other)
next
  case True
  from promote_child_item[OF assms(1) True] obtain gs item' where gs: "children c = Some gs"
    and m: "promote_grandchildren c gs = Some (item', map clear_promoted gs)"
    and c': "c' = Node (props item') (Some (map clear_promoted gs))"
    by blast
  from promote_grandchildren_frame[OF m] True have t: "ntype (props item') = ''listItem''" by simp
  from assms(2) gs True have "list_all promotion_safe gs"
    by (cases c) (simp add: tight_list_def)
  then have "list_all promotion_safe (map clear_promoted gs)"
    by (simp add: list_all_iff promotion_safe_clear)
  with t c' show ?thesis by (simp add: tight_list_def)
qed

lemma those_map_total: "list_all (\<lambda>x. f x \<noteq> None) xs \<Longrightarrow> those (map f xs) \<noteq> None"
  by (induction xs) auto

lemma promote_total: "promotion_safe n \<Longrightarrow> promoteTightListAttributes n \<noteq> None"
proof (induction n rule: promoteTightListAttributes.induct)
  case (1 node)
  show ?case
  proof (cases "children node")
    case None
    then show ?thesis by (simp add: promoteTightListAttributes.simps[of node])
  next
    case (Some cs)
    let ?tight = "ntype (props node) = ''list'' \<and> spread (props node) \<noteq> Some True"
    from "1.prems" Some have safe: "list_all promotion_safe cs"
      and items: "?tight \<Longrightarrow> list_all item_safe cs"
      by (cases node; simp add: tight_list_def)+
    obtain cs1 where cs1: "(if ?tight then those (map promote_child cs) else Some cs) = Some cs1"
      using items those_map_total[of promote_child cs] promote_child_total
      by (cases ?tight) (auto simp: list_all_iff)
    have safe1: "list_all promotion_safe cs1"
    proof (cases ?tight)
      case True
      with cs1 have "length cs1 = length cs" "\<forall>i<length cs. promote_child (cs ! i) = Some (cs1 ! i)"
        by (simp_all add: those_map_Some)
      with safe promote_child_safe show ?thesis
        by (auto simp: list_all_length)
    next
      case False
      with cs1 safe show ?thesis by simp
    qed
    have "list_all (\<lambda>x. promoteTightListAttributes x \<noteq> None) cs1"
      using "1.IH"[OF Some cs1] safe1 by (auto simp: list_all_iff)
    then obtain cs2 where "those (map promoteTightListAttributes cs1) = Some cs2"
      using those_map_total[of promoteTightListAttributes cs1] by auto
    with Some cs1 show ?thesis
      by (simp add: promoteTightListAttributes.simps[of node])
  qed
qed


lemma promote_level:
  assumes "promoteTightListAttributes n = Some n'" and "children n = Some cs"
  shows "\<exists>cs1 cs'. children n' = Some cs' \<and> length cs1 = length cs \<and> length cs' = length cs
           \<and> (\<forall>i<length cs.
                 promoteTightListAttributes (cs1 ! i) = Some (cs' ! i)
                 \<and> props (cs' ! i) = props (cs1 ! i)
                 \<and> (if tight_list n \<and> ntype (props (cs ! i)) = ''listItem''
                    then \<exists>gs item'. children (cs ! i) = Some gs
                           \<and> promote_grandchildren (cs ! i) gs = Some (item', map clear_promoted gs)
                           \<and> cs1 ! i = Node (props item') (Some (map clear_promoted gs))
                    else cs1 ! i = cs ! i))"
proof -
  from assms obtain cs1 cs' where
    1: "(if tight_list n then those (map promote_child cs) else Some cs) = Some cs1"
    and 2: "those (map promoteTightListAttributes cs1) = Some cs'"
    and n': "n' = Node (props n) (Some cs')"
    by (auto simp: promoteTightListAttributes.simps[of n] tight_list_def split: bind_splits)
  from 2 have l2: "length cs' = length cs1"
    and r: "\<forall>i<length cs1. promoteTightListAttributes (cs1 ! i) = Some (cs' ! i)"
    by (simp_all add: those_map_Some)
  have l1: "length cs1 = length cs"
    using 1 by (auto simp: those_map_Some split: if_splits)
  have step: "if tight_list n \<and> ntype (props (cs ! i)) = ''listItem''
                    then \<exists>gs item'. children (cs ! i) = Some gs
                           \<and> promote_grandchildren (cs ! i) gs = Some (item', map clear_promoted gs)
                           \<and> cs1 ! i = Node (props item') (Some (map clear_promoted gs))
                    else cs1 ! i = cs ! i" if "i < length cs" for i
  proof (cases "tight_list n")
    case True
    with 1 that have "promote_child (cs ! i) = Some (cs1 ! i)"
      by (simp add: those_map_Some)
    then show ?thesis using True promote_child_item[of "cs ! i" "cs1 ! i"] promote_child_other[of "cs ! i"]
      by (cases "ntype (props (cs ! i)) = ''listItem''") auto
  next
    case False
    with 1 show ?thesis by simp
  qed
  have "props (cs' ! i) = props (cs1 ! i)" if "i < length cs" for i
    using r l1 that promote_props by auto
  note pr = this
  have all: "\<forall>i<length cs.
                 promoteTightListAttributes (cs1 ! i) = Some (cs' ! i)
                 \<and> props (cs' ! i) = props (cs1 ! i)
                 \<and> (if tight_list n \<and> ntype (props (cs ! i)) = ''listItem''
                    then \<exists>gs item'. children (cs ! i) = Some gs
                           \<and> promote_grandchildren (cs ! i) gs = Some (item', map clear_promoted gs)
                           \<and> cs1 ! i = Node (props item') (Some (map clear_promoted gs))
                    else cs1 ! i = cs ! i)"
  proof (intro allI impI conjI)
    fix i assume i: "i < length cs"
    show "promoteTightListAttributes (cs1 ! i) = Some (cs' ! i)" using r l1 i by simp
    show "props (cs' ! i) = props (cs1 ! i)" using pr[OF i] .
    show "if tight_list n \<and> ntype (props (cs ! i)) = ''listItem''
                    then \<exists>gs item'. children (cs ! i) = Some gs
                           \<and> promote_grandchildren (cs ! i) gs = Some (item', map clear_promoted gs)
                           \<and> cs1 ! i = Node (props item') (Some (map clear_promoted gs))
                    else cs1 ! i = cs ! i"
      using step[OF i] .
  qed
  from n' have c: "children n' = Some cs'" by simp
  from l1 l2 have l3: "length cs' = length cs" by simp
  show ?thesis
    using c l1 l3 all
    by - (rule exI[of _ cs1], rule exI[of _ cs'], (intro conjI; assumption))
qed

text \<open>A tight list of one item. The item has two paragraphs, with a fenced block between
  them so that no blank line separates its children, and each paragraph ends with a
  fragment that gives it a class.\<close>

definition ex_tight_two :: node where
  "ex_tight_two =
     Node (bare ''root'')
       (Some [Node ((bare ''list'')\<lparr>spread := Some False\<rparr>)
          (Some [Node ((bare ''listItem'')\<lparr>spread := Some False\<rparr>)
             (Some [Node (bare ''paragraph'')
                      (Some [Node ((bare ''text'')\<lparr>nvalue := Some ''foo ''\<rparr>) None,
                             frag [(''class'', ''x'')] ''{.x}'' None]),
                    Node ((bare ''code'')\<lparr>nvalue := Some ''c''\<rparr>) None,
                    Node (bare ''paragraph'')
                      (Some [Node ((bare ''text'')\<lparr>nvalue := Some ''bar ''\<rparr>) None,
                             frag [(''class'', ''y'')] ''{.y}'' None])])])])"

text \<open>A tight list of one item that already has the class \<^verbatim>\<open>b\<close> in its bag, and whose
  paragraph has the class \<^verbatim>\<open>a\<close> in its own.\<close>

definition ex_tight_bag :: node where
  "ex_tight_bag =
     Node ((bare ''list'')\<lparr>spread := Some False\<rparr>)
       (Some [bagged [(''className'', Toks [''b''])]
                (Node (bare ''listItem'')
                   (Some [bagged [(''className'', Toks [''a''])]
                            (Node (bare ''paragraph'')
                               (Some [Node ((bare ''text'')\<lparr>nvalue := Some ''bar ''\<rparr>) None]))]))])"

text \<open>
  C8. On the tight list whose item has two paragraphs of classes \<^verbatim>\<open>x\<close> and \<^verbatim>\<open>y\<close>, the
  transform leaves the item with the class sequence \<^verbatim>\<open>[y]\<close>: both paragraphs lose their
  bags, and the class \<^verbatim>\<open>x\<close> is in no bag of the result. On the tight list whose item has
  the class \<^verbatim>\<open>b\<close> and whose paragraph has the class \<^verbatim>\<open>a\<close>, the tight-list pass leaves the
  item with \<^verbatim>\<open>[a]\<close>. A promoted bag holds its classes under \<^verbatim>\<open>className\<close>, which
  \<^verbatim>\<open>mergeAttributes\<close> assigns like any other key; merging the same class as an attribute
  \<^verbatim>\<open>class\<close> into the item keeps \<^verbatim>\<open>b\<close> and appends \<^verbatim>\<open>a\<close>.
\<close>

theorem tight_list_promotion_drops_class_tokens:
  "attributesTransform ex_tight_two
     = Some (Node (bare ''root'')
         (Some [Node ((bare ''list'')\<lparr>spread := Some False\<rparr>)
            (Some [bagged [(''className'', Toks [''y''])]
                     (Node ((bare ''listItem'')\<lparr>spread := Some False\<rparr>)
                        (Some [Node ((bare ''paragraph'')\<lparr>data := Some empty_data\<rparr>)
                                 (Some [Node ((bare ''text'')\<lparr>nvalue := Some ''foo ''\<rparr>) None]),
                               Node ((bare ''code'')\<lparr>nvalue := Some ''c''\<rparr>) None,
                               Node ((bare ''paragraph'')\<lparr>data := Some empty_data\<rparr>)
                                 (Some [Node ((bare ''text'')\<lparr>nvalue := Some ''bar ''\<rparr>) None])]))])]))
   \<and> promoteTightListAttributes ex_tight_bag
     = Some (Node ((bare ''list'')\<lparr>spread := Some False\<rparr>)
         (Some [bagged [(''className'', Toks [''a''])]
                  (Node (bare ''listItem'')
                     (Some [Node ((bare ''paragraph'')\<lparr>data := Some empty_data\<rparr>)
                              (Some [Node ((bare ''text'')\<lparr>nvalue := Some ''bar ''\<rparr>) None])]))]))
   \<and> mergeAttributesToNode
       (bagged [(''className'', Toks [''b''])] (Node (bare ''listItem'') (Some [])))
       [(''class'', Str ''a'')]
     = Some (bagged [(''className'', Toks [''b'', ''a''])] (Node (bare ''listItem'') (Some [])))"
  by code_simp


section \<open>Invariants of the walks\<close>

text \<open>
  A property of single nodes, read from a node's fields and from whether it has children
  and how many, holds \<^emph>\<open>everywhere\<close> in a tree when it holds at the root and at every
  node reached from it through nodes whose type is outside a set of stop types. The
  passes change trees in four ways only: they merge attributes into a node, they remove
  children, they put a text node in the place of a fragment, and they delete the children
  of a thematic break. A property stable under these four changes that holds everywhere
  before a pass holds everywhere after it.
\<close>

definition count :: "node \<Rightarrow> nat option" where
  "count n = map_option length (children n)"

definition side_channel :: "props \<Rightarrow> attrs option" where
  "side_channel p = data p \<bind> mdastAttributes"

fun every_node :: "string set \<Rightarrow> (props \<Rightarrow> nat option \<Rightarrow> bool) \<Rightarrow> node \<Rightarrow> bool" where
  "every_node S P (Node p ch) =
     (P p (map_option length ch) \<and>
      (ntype p \<in> S \<or> (case ch of None \<Rightarrow> True | Some cs \<Rightarrow> list_all (every_node S P) cs)))"

definition every_child :: "string set \<Rightarrow> (props \<Rightarrow> nat option \<Rightarrow> bool) \<Rightarrow> node \<Rightarrow> bool" where
  "every_child S P n = (case children n of None \<Rightarrow> True | Some cs \<Rightarrow> list_all (every_node S P) cs)"

lemma every_node_iff:
  "every_node S P n \<longleftrightarrow> P (props n) (count n) \<and> (ntype (props n) \<in> S \<or> every_child S P n)"
  by (cases n) (simp add: count_def every_child_def)

definition merge_stable :: "(props \<Rightarrow> nat option \<Rightarrow> bool) \<Rightarrow> bool" where
  "merge_stable P \<longleftrightarrow>
     (\<forall>n b n' k. P (props n) k \<longrightarrow> mergeAttributesToNode n (str_attrs b) = Some n' \<longrightarrow> P (props n') k)"

definition shrink_stable :: "(props \<Rightarrow> nat option \<Rightarrow> bool) \<Rightarrow> bool" where
  "shrink_stable P \<longleftrightarrow> (\<forall>p m m'. P p (Some m) \<longrightarrow> m' \<le> m \<longrightarrow> P p (Some m'))"

definition text_ok :: "(props \<Rightarrow> nat option \<Rightarrow> bool) \<Rightarrow> bool" where
  "text_ok P \<longleftrightarrow> (\<forall>a. P (props (textNode a)) None)"

definition flat_stable :: "(props \<Rightarrow> nat option \<Rightarrow> bool) \<Rightarrow> bool" where
  "flat_stable P \<longleftrightarrow> (\<forall>p m. P p (Some m) \<longrightarrow> ntype p = ''thematicBreak'' \<longrightarrow> P p None)"

definition stable :: "(props \<Rightarrow> nat option \<Rightarrow> bool) \<Rightarrow> bool" where
  "stable P \<longleftrightarrow> merge_stable P \<and> shrink_stable P \<and> text_ok P \<and> flat_stable P"

lemma every_node_merge:
  assumes "merge_stable P" "every_node S P n" "mergeAttributesToNode n (str_attrs b) = Some n'"
  shows "every_node S P n'"
proof -
  from assms(3) have c: "children n' = children n" and t: "ntype (props n') = ntype (props n)"
    by (simp_all add: mergeAttributesToNode_children mergeAttributesToNode_frame)
  from assms(1,3) assms(2)[unfolded every_node_iff] have "P (props n') (count n)"
    unfolding merge_stable_def by blast
  with c t assms(2) show ?thesis
    by (simp add: every_node_iff count_def every_child_def)
qed

lemma every_node_text: "text_ok P \<Longrightarrow> every_node S P (textNode a)"
  by (simp add: text_ok_def every_node_iff count_def every_child_def) (simp add: textNode_def)


lemma list_all_splice1: "list_all Q xs \<Longrightarrow> list_all Q (splice1 i xs)"
  by (auto simp: splice1_def list_all_iff dest: in_set_takeD in_set_dropD)

lemma list_all_update: "list_all Q xs \<Longrightarrow> Q y \<Longrightarrow> list_all Q (xs[i := y])"
  by (auto simp: list_all_iff dest!: set_update_subset_insert[THEN subsetD])

lemma length_splice1: "i < length xs \<Longrightarrow> length (splice1 i xs) = length xs - 1"
  by (simp add: splice1_def)

lemma handle_root:
  assumes "merge_stable P" "shrink_stable P" "P (props parent) (count parent)"
    "handleAttributeNode parent i a = Some p'"
  shows "P (props p') (count p') \<and> ntype (props p') = ntype (props parent)"
proof -
  from assms(4) obtain cs where cs: "children parent = Some cs" and i: "i < length cs"
    by (auto simp: handleAttributeNode_def split: option.splits if_splits)
  from assms(3) cs have P0: "P (props parent) (Some (length cs))" by (simp add: count_def)
  from assms(4) cs i consider
    (a) prev' where "p' = Node (props parent) (Some (splice1 i (cs[i - 1 := prev'])))"
  | (b) parent' where "mergeAttributesToNode parent (str_attrs (attributes (props a))) = Some parent'"
      "p' = Node (props parent') (Some (splice1 i cs))"
  | (c) "p' = Node (props parent) (Some (cs[i := textNode a]))"
    by (auto simp: handleAttributeNode_def Let_def split: if_splits bind_splits)
  then show ?thesis
  proof cases
    case a
    with P0 i assms(2) show ?thesis
      by (auto simp: count_def shrink_stable_def length_splice1)
  next
    case b
    from assms(1) P0 b(1) have "P (props parent') (Some (length cs))"
      unfolding merge_stable_def by blast
    with assms(2) i have "P (props parent') (Some (length cs - 1))"
      unfolding shrink_stable_def by (metis diff_le_self)
    with b i mergeAttributesToNode_frame(1)[OF b(1)] show ?thesis
      by (simp add: count_def length_splice1)
  next
    case c
    with P0 show ?thesis by (simp add: count_def)
  qed
qed

lemma handle_children:
  assumes "merge_stable P" "text_ok P" "every_child S P parent"
    "handleAttributeNode parent i a = Some p'"
  shows "every_child S P p'"
proof -
  from assms(4) obtain cs where cs: "children parent = Some cs" and i: "i < length cs"
    by (auto simp: handleAttributeNode_def split: option.splits if_splits)
  from assms(3) cs have all: "list_all (every_node S P) cs" by (simp add: every_child_def)
  from assms(4) cs i consider
    (a) prev' where "0 < i" "mergeAttributesToNode (cs ! (i - 1)) (str_attrs (attributes (props a))) = Some prev'"
       "p' = Node (props parent) (Some (splice1 i (cs[i - 1 := prev'])))"
  | (b) parent' where "p' = Node (props parent') (Some (splice1 i cs))"
  | (c) "p' = Node (props parent) (Some (cs[i := textNode a]))"
    by (auto simp: handleAttributeNode_def Let_def split: if_splits bind_splits)
  then show ?thesis
  proof cases
    case a
    from all a(1) i have "every_node S P (cs ! (i - 1))" by (simp add: list_all_length)
    from every_node_merge[OF assms(1) this a(2)] all a(3) show ?thesis
      by (simp add: every_child_def list_all_splice1 list_all_update)
  next
    case b
    with all show ?thesis by (simp add: every_child_def list_all_splice1)
  next
    case c
    with all every_node_text[OF assms(2)] show ?thesis
      by (simp add: every_child_def list_all_update)
  qed
qed


subsection \<open>The resolver\<close>

lemma processNode_loop_root:
  assumes "merge_stable P" "shrink_stable P"
  shows "processNode_loop parent k = Some r \<Longrightarrow> P (props parent) (count parent) \<Longrightarrow>
            P (props r) (count r) \<and> ntype (props r) = ntype (props parent)"
proof (induction k arbitrary: parent)
  case 0
  then show ?case by simp
next
  case (Suc i)
  from Suc.prems(1) obtain cs where cs: "children parent = Some cs" and i: "i < length cs"
    by (auto split: option.splits if_splits)
  show ?case
  proof (cases "ntype (props (cs ! i)) = ''mdastAttributes''")
    case True
    with Suc.prems(1) cs i obtain p' where h: "handleAttributeNode parent i (cs ! i) = Some p'"
      and l: "processNode_loop p' i = Some r"
      by (auto split: bind_splits)
    from handle_root[OF assms Suc.prems(2) h] Suc.IH[OF l] show ?thesis by simp
  next
    case False
    with Suc.prems(1) cs i obtain c' where
      l: "processNode_loop (Node (props parent) (Some (cs[i := c']))) i = Some r"
      by (auto split: bind_splits)
    from Suc.prems(2) cs have "P (props (Node (props parent) (Some (cs[i := c']))))
                                 (count (Node (props parent) (Some (cs[i := c']))))"
      by (simp add: count_def)
    from Suc.IH[OF l this] show ?thesis by simp
  qed
qed

lemma processNode_root:
  assumes "merge_stable P" "shrink_stable P" "processNode n = Some n'" "P (props n) (count n)"
  shows "P (props n') (count n') \<and> ntype (props n') = ntype (props n)"
proof (cases "children n")
  case None
  with assms(3,4) show ?thesis by (simp add: processNode.simps(1))
next
  case (Some cs)
  with assms(3) have "processNode_loop n (length cs) = Some n'" by (simp add: processNode.simps(1))
  from processNode_loop_root[OF assms(1,2) this assms(4)] show ?thesis .
qed

lemma processNode_every:
  assumes st: "merge_stable P" "shrink_stable P" "text_ok P"
  shows "processNode n = Some n' \<Longrightarrow> every_child S P n \<Longrightarrow> every_child S P n'"
    and "processNode_loop parent k = Some r \<Longrightarrow> every_child S P parent \<Longrightarrow> every_child S P r"
proof (induction n and parent k arbitrary: n' and r rule: processNode_processNode_loop.induct)
  case (1 node)
  show ?case
  proof (cases "children node")
    case None
    with "1.prems" show ?thesis by (simp add: processNode.simps(1))
  next
    case (Some cs)
    with "1.prems"(1) have "processNode_loop node (length cs) = Some n'"
      by (simp add: processNode.simps(1))
    from "1.IH"[OF Some this "1.prems"(2)] show ?thesis .
  qed
next
  case (2 nodeWithChildren)
  then show ?case by simp
next
  case (3 parent i)
  from "3.prems"(1) obtain cs where cs: "children parent = Some cs" and i: "i < length cs"
    by (auto split: option.splits if_splits)
  from "3.prems"(2) cs have all: "list_all (every_node S P) cs" by (simp add: every_child_def)
  have ni: "\<not> length cs \<le> i" using i by simp
  show ?case
  proof (cases "ntype (props (cs ! i)) = ''mdastAttributes''")
    case True
    with "3.prems"(1) cs i obtain p' where h: "handleAttributeNode parent i (cs ! i) = Some p'"
      and l: "processNode_loop p' i = Some r"
      by (auto split: bind_splits)
    from handle_children[OF st(1,3) "3.prems"(2) h] have "every_child S P p'" .
    from "3.IH"(1)[OF cs ni refl True h l this] show ?thesis .
  next
    case False
    with "3.prems"(1) cs i obtain c' where c': "processNode (cs ! i) = Some c'" and
      l: "processNode_loop (Node (props parent) (Some (cs[i := c']))) i = Some r"
      by (auto split: bind_splits)
    from all i have ci: "every_node S P (cs ! i)" by (simp add: list_all_length)
    then have "every_node S P c'"
      using processNode_root[OF st(1,2) c'] "3.IH"(2)[OF cs ni refl False c']
      by (auto simp: every_node_iff)
    with all have "every_child S P (Node (props parent) (Some (cs[i := c'])))"
      by (simp add: every_child_def list_all_update)
    from "3.IH"(3)[OF cs ni refl False c' l this] show ?thesis .
  qed
qed


text \<open>The node is not an attribute fragment.\<close>

definition not_fragment :: "props \<Rightarrow> nat option \<Rightarrow> bool" where
  "not_fragment p k = (ntype p \<noteq> ''mdastAttributes'')"

abbreviation fragment_free :: "node \<Rightarrow> bool" where
  "fragment_free \<equiv> every_node {} not_fragment"

lemma handleAttributeNode_total:
  assumes "children parent = Some cs" "i < length cs"
  shows "\<exists>p'. handleAttributeNode parent i a = Some p'"
  using handle_rule1[OF assms, of a] handle_rule2[OF assms, of a] handle_rule3[OF assms, of a]
  by (cases "rule1_applies cs i a"; cases "rule2_applies parent cs i") auto

lemma handle_suffix:
  assumes "handleAttributeNode parent i a = Some p'" "children parent = Some cs"
    "list_all Q (drop (Suc i) cs)" "Q (textNode a)"
  shows "\<exists>cs'. children p' = Some cs' \<and> i \<le> length cs' \<and> list_all Q (drop i cs')"
proof -
  from assms(1,2) have i: "i < length cs"
    by (auto simp: handleAttributeNode_def split: if_splits)
  from assms(1,2) i consider
    (a) prev' where "0 < i" "p' = Node (props parent) (Some (splice1 i (cs[i - 1 := prev'])))"
  | (b) parent' where "p' = Node (props parent') (Some (splice1 i cs))"
  | (c) "p' = Node (props parent) (Some (cs[i := textNode a]))"
    by (auto simp: handleAttributeNode_def Let_def split: if_splits bind_splits)
  then show ?thesis
  proof cases
    case a
    have "drop i (splice1 i (cs[i - 1 := prev'])) = drop (Suc i) cs"
      using a(1) i by (simp add: splice1_def drop_update_cancel)
    with a i assms(3) show ?thesis by (simp add: length_splice1)
  next
    case b
    have "drop i (splice1 i cs) = drop (Suc i) cs"
      using i by (simp add: splice1_def)
    with b i assms(3) show ?thesis by (simp add: length_splice1)
  next
    case c
    have "drop i (cs[i := textNode a]) = textNode a # drop (Suc i) cs"
      using i by (simp add: upd_conv_take_nth_drop)
    with c i assms(3,4) show ?thesis by simp
  qed
qed

lemma processNode_type:
  "processNode n = Some n' \<Longrightarrow> ntype (props n') = ntype (props n)"
  using processNode_root[of "\<lambda>p k. True" n n']
  by (simp add: merge_stable_def shrink_stable_def)

lemma processNode_total:
  shows "processNode n \<noteq> None"
    and "\<forall>cs. children parent = Some cs \<longrightarrow> k \<le> length cs \<longrightarrow> processNode_loop parent k \<noteq> None"
proof (induction n and parent k rule: processNode_processNode_loop.induct)
  case (1 node)
  then show ?case by (cases "children node") (simp_all add: processNode.simps(1))
next
  case (2 nodeWithChildren)
  then show ?case by simp
next
  case (3 parent i)
  show ?case
  proof (intro allI impI)
    fix cs assume cs: "children parent = Some cs" and k: "Suc i \<le> length cs"
    then have i: "i < length cs" and ni: "\<not> length cs \<le> i" by simp_all
    show "processNode_loop parent (Suc i) \<noteq> None"
    proof (cases "ntype (props (cs ! i)) = ''mdastAttributes''")
      case True
      from handleAttributeNode_total[OF cs i] obtain p' where
        h: "handleAttributeNode parent i (cs ! i) = Some p'" by blast
      from handle_suffix[OF h cs, of "\<lambda>_. True"] obtain cs' where
        "children p' = Some cs'" "i \<le> length cs'" by (auto simp: list_all_iff)
      with "3.IH"(1)[OF cs ni refl True h] have "processNode_loop p' i \<noteq> None" by simp
      with True cs i h show ?thesis by simp
    next
      case False
      from "3.IH"(2)[OF cs ni refl False] obtain c' where c': "processNode (cs ! i) = Some c'"
        by auto
      from "3.IH"(3)[OF cs ni refl False c'] i
      have "processNode_loop (Node (props parent) (Some (cs[i := c']))) i \<noteq> None" by simp
      with False cs i c' show ?thesis by simp
    qed
  qed
qed

lemma processNode_establishes:
  shows "processNode n = Some n' \<Longrightarrow> every_child {} not_fragment n'"
    and "processNode_loop parent k = Some r \<Longrightarrow>
           (\<forall>cs. children parent = Some cs \<longrightarrow> list_all fragment_free (drop k cs)) \<Longrightarrow>
           every_child {} not_fragment r"
proof (induction n and parent k arbitrary: n' and r rule: processNode_processNode_loop.induct)
  case (1 node)
  show ?case
  proof (cases "children node")
    case None
    with "1.prems" show ?thesis by (simp add: processNode.simps(1) every_child_def)
  next
    case (Some cs)
    with "1.prems"(1) have "processNode_loop node (length cs) = Some n'"
      by (simp add: processNode.simps(1))
    from "1.IH"[OF Some this] Some show ?thesis by simp
  qed
next
  case (2 nodeWithChildren)
  then show ?case by (auto simp: every_child_def split: option.splits)
next
  case (3 parent i)
  from "3.prems"(1) obtain cs where cs: "children parent = Some cs" and i: "i < length cs"
    by (auto split: option.splits if_splits)
  from "3.prems"(2) cs have suf: "list_all fragment_free (drop (Suc i) cs)" by simp
  have ni: "\<not> length cs \<le> i" using i by simp
  show ?case
  proof (cases "ntype (props (cs ! i)) = ''mdastAttributes''")
    case True
    with "3.prems"(1) cs i obtain p' where h: "handleAttributeNode parent i (cs ! i) = Some p'"
      and l: "processNode_loop p' i = Some r"
      by (auto split: bind_splits)
    have "fragment_free (textNode (cs ! i))"
      by (rule every_node_text) (simp add: text_ok_def not_fragment_def textNode_def)
    from handle_suffix[OF h cs suf this]
    have "\<forall>cs'. children p' = Some cs' \<longrightarrow> list_all fragment_free (drop i cs')" by auto
    from "3.IH"(1)[OF cs ni refl True h l this] show ?thesis .
  next
    case False
    with "3.prems"(1) cs i obtain c' where c': "processNode (cs ! i) = Some c'" and
      l: "processNode_loop (Node (props parent) (Some (cs[i := c']))) i = Some r"
      by (auto split: bind_splits)
    have "not_fragment (props c') (count c')"
      using processNode_type[OF c'] False by (simp add: not_fragment_def)
    with "3.IH"(2)[OF cs ni refl False c'] have "fragment_free c'"
      by (simp only: every_node_iff) simp
    moreover have "drop i (cs[i := c']) = c' # drop (Suc i) cs"
      using i by (simp add: upd_conv_take_nth_drop)
    ultimately have "\<forall>cs'. children (Node (props parent) (Some (cs[i := c']))) = Some cs'
                        \<longrightarrow> list_all fragment_free (drop i cs')"
      using suf by simp
    from "3.IH"(3)[OF cs ni refl False c' l this] show ?thesis .
  qed
qed

lemma processNode_identity:
  shows "every_child {} not_fragment n \<Longrightarrow> processNode n = Some n"
    and "every_child {} not_fragment parent \<Longrightarrow>
           k \<le> (case children parent of None \<Rightarrow> 0 | Some cs \<Rightarrow> length cs) \<Longrightarrow>
           processNode_loop parent k = Some parent"
proof (induction n and parent k rule: processNode_processNode_loop.induct)
  case (1 node)
  then show ?case by (cases "children node") (simp_all add: processNode.simps(1))
next
  case (2 nodeWithChildren)
  then show ?case by simp
next
  case (3 parent i)
  from "3.prems"(2) obtain cs where Some: "children parent = Some cs"
    by (cases "children parent") auto
  with "3.prems"(2) have i: "i < length cs" and ni: "\<not> length cs \<le> i" by auto
  from "3.prems"(1) Some have all: "list_all fragment_free cs" by (simp add: every_child_def)
  with i have ci: "fragment_free (cs ! i)" by (simp add: list_all_length)
  then have "not_fragment (props (cs ! i)) (count (cs ! i))"
    and ec: "every_child {} not_fragment (cs ! i)"
    by (simp_all only: every_node_iff) simp_all
  then have nf: "ntype (props (cs ! i)) \<noteq> ''mdastAttributes''"
    by (simp add: not_fragment_def)
  from ec "3.IH"(2)[OF Some ni refl nf] have c: "processNode (cs ! i) = Some (cs ! i)" by simp
  have same: "Node (props parent) (Some (cs[i := cs ! i])) = parent"
    using Some by (cases parent) simp
  from "3.IH"(3)[OF Some ni refl nf c] "3.prems"(1) same Some i
  have "processNode_loop parent i = Some parent" by simp
  with Some i nf c same show ?case by simp
qed


subsection \<open>The tight-list pass\<close>

text \<open>A property that does not read \<^verbatim>\<open>hProperties\<close>.\<close>

definition blind :: "(props \<Rightarrow> nat option \<Rightarrow> bool) \<Rightarrow> bool" where
  "blind P \<longleftrightarrow>
     (\<forall>p p' k. P p k \<longrightarrow> ntype p' = ntype p \<longrightarrow> side_channel p' = side_channel p \<longrightarrow> P p' k)"

lemma blind_merge_stable: "blind P \<Longrightarrow> merge_stable P"
  unfolding blind_def merge_stable_def side_channel_def
  by (metis mergeAttributesToNode_frame(1,7))

lemma promote_grandchildren_side:
  "promote_grandchildren item gs = Some (item', gs') \<Longrightarrow>
     ntype (props item') = ntype (props item) \<and> side_channel (props item') = side_channel (props item)"
  using promote_grandchildren_frame[of item gs item' gs'] by (simp add: side_channel_def)

lemma clear_promoted_side:
  "ntype (props (clear_promoted g)) = ntype (props g)"
  "side_channel (props (clear_promoted g)) = side_channel (props g)"
  "children (clear_promoted g) = children g"
  by (cases "data (props g)"; simp add: clear_promoted_def delete_hProperties_def side_channel_def)+

lemma every_node_clear:
  assumes "blind P" "every_node S P g"
  shows "every_node S P (clear_promoted g)"
proof -
  from assms(2) have "P (props g) (count g)" by (simp only: every_node_iff)
  with assms(1) clear_promoted_side[of g] have "P (props (clear_promoted g)) (count g)"
    unfolding blind_def by blast
  with assms(2) clear_promoted_side[of g] show ?thesis
    by (simp add: every_node_iff count_def every_child_def)
qed

lemma promote_child_every:
  assumes "blind P" "every_node S P c" "promote_child c = Some c'"
  shows "every_node S P c'"
proof (cases "ntype (props c) = ''listItem''")
  case False
  with assms show ?thesis by (simp add: promote_child_other)
next
  case True
  from promote_child_item[OF assms(3) True] obtain gs item' where gs: "children c = Some gs"
    and m: "promote_grandchildren c gs = Some (item', map clear_promoted gs)"
    and c': "c' = Node (props item') (Some (map clear_promoted gs))"
    by blast
  from assms(2) gs have "P (props c) (Some (length gs))"
    by (simp add: every_node_iff count_def)
  with assms(1) promote_grandchildren_side[OF m] have P': "P (props item') (Some (length gs))"
    unfolding blind_def by blast
  have kids: "list_all (every_node S P) (map clear_promoted gs)" if "ntype (props c) \<notin> S"
  proof -
    from that assms(2) gs have "list_all (every_node S P) gs"
      by (simp add: every_node_iff every_child_def)
    with every_node_clear[OF assms(1)] show ?thesis
      by (simp add: list_all_iff)
  qed
  from P' kids c' promote_grandchildren_side[OF m] show ?thesis
    by (auto simp: every_node_iff count_def every_child_def)
qed

lemma promote_count: "promoteTightListAttributes n = Some n' \<Longrightarrow> count n' = count n"
  by (cases "children n")
    (auto simp: promoteTightListAttributes.simps[of n] count_def those_map_Some
          split: bind_splits if_splits)

lemma promote_every:
  assumes "blind P"
  shows "promoteTightListAttributes n = Some n' \<Longrightarrow> every_child S P n \<Longrightarrow> every_child S P n'"
proof (induction n arbitrary: n' rule: promoteTightListAttributes.induct)
  case (1 node)
  show ?case
  proof (cases "children node")
    case None
    with "1.prems" show ?thesis by (simp add: promoteTightListAttributes.simps[of node])
  next
    case (Some cs)
    let ?tight = "ntype (props node) = ''list'' \<and> spread (props node) \<noteq> Some True"
    from "1.prems"(1) Some obtain cs1 cs' where
      1: "(if ?tight then those (map promote_child cs) else Some cs) = Some cs1"
      and 2: "those (map promoteTightListAttributes cs1) = Some cs'"
      and n': "n' = Node (props node) (Some cs')"
      by (auto simp: promoteTightListAttributes.simps[of node] split: bind_splits)
    from "1.prems"(2) Some have all: "list_all (every_node S P) cs" by (simp add: every_child_def)
    have all1: "list_all (every_node S P) cs1"
    proof (cases ?tight)
      case True
      with 1 have "length cs1 = length cs" "\<forall>i<length cs. promote_child (cs ! i) = Some (cs1 ! i)"
        by (simp_all add: those_map_Some)
      with all promote_child_every[OF assms] show ?thesis
        by (auto simp: list_all_length)
    next
      case False
      with 1 all show ?thesis by simp
    qed
    from 2 have l: "length cs' = length cs1"
      and each: "\<forall>i<length cs1. promoteTightListAttributes (cs1 ! i) = Some (cs' ! i)"
      by (simp_all add: those_map_Some)
    have "every_node S P (cs' ! i)" if i: "i < length cs1" for i
    proof -
      from each i have p: "promoteTightListAttributes (cs1 ! i) = Some (cs' ! i)" by simp
      from all1 i have e: "every_node S P (cs1 ! i)" by (simp add: list_all_length)
      from i have "cs1 ! i \<in> set cs1" by simp
      from "1.IH"[OF Some 1 this p] e promote_props[OF p] promote_count[OF p] show ?thesis
        by (auto simp: every_node_iff)
    qed
    with l n' show ?thesis by (simp add: every_child_def list_all_length)
  qed
qed

lemma promote_every_node:
  assumes "blind P" "promoteTightListAttributes n = Some n'" "every_node S P n"
  shows "every_node S P n'"
  using assms promote_every[OF assms(1,2)] promote_props[OF assms(2)] promote_count[OF assms(2)]
  by (auto simp: every_node_iff)


subsection \<open>The forward pass\<close>

lemma standalone_loop_length:
  "standalone_loop cs = Some cs' \<Longrightarrow> length cs' \<le> length cs"
proof (induction cs arbitrary: cs' rule: length_induct)
  case (1 cs)
  show ?case
  proof (cases cs)
    case Nil
    with "1.prems" show ?thesis by simp
  next
    case (Cons child rest)
    note unf = standalone_loop_Cons[of child rest]
    from "1.prems" Cons obtain sa where g: "getStandaloneAttributesFromParagraph child = Some sa"
      by (auto simp: unf split: bind_splits)
    show ?thesis
    proof (cases "sa \<noteq> None \<and> rest \<noteq> [] \<and> areDirectlyAdjacent child (hd rest)")
      case True
      with "1.prems" Cons g obtain next' where "standalone_loop (next' # tl rest) = Some cs'"
        by (auto simp: unf split: bind_splits)
      moreover from True have "length (next' # tl rest) < length cs" using Cons by (cases rest) auto
      ultimately have "length cs' \<le> length (next' # tl rest)" using "1.IH" by blast
      with True Cons show ?thesis by (cases rest) auto
    next
      case False
      with "1.prems" Cons g obtain child' rest' where "standalone_loop rest = Some rest'"
        and "cs' = child' # rest'"
        by (auto simp: unf split: bind_splits if_splits)
      moreover have "length rest < length cs" using Cons by simp
      ultimately show ?thesis using "1.IH" Cons by auto
    qed
  qed
qed

lemma standalone_root:
  assumes "processStandaloneInParent n = Some n'"
  shows "props n' = props n"
    and "children n = None \<Longrightarrow> n' = n"
    and "children n = Some cs \<Longrightarrow> \<exists>cs'. children n' = Some cs' \<and> length cs' \<le> length cs"
proof -
  show "props n' = props n"
    using assms by (cases "children n") (auto simp: processStandaloneInParent.simps(1)[of n] split: bind_splits)
  show "children n = None \<Longrightarrow> n' = n"
    using assms by (simp add: processStandaloneInParent.simps(1)[of n])
  show "children n = Some cs \<Longrightarrow> \<exists>cs'. children n' = Some cs' \<and> length cs' \<le> length cs"
    using assms standalone_loop_length[of cs]
    by (auto simp: processStandaloneInParent.simps(1)[of n] split: bind_splits)
qed

lemma shrink_root:
  assumes "shrink_stable P" "P (props n) (count n)" "props n' = props n"
    "children n = None \<longrightarrow> n' = n"
    "\<forall>cs. children n = Some cs \<longrightarrow> (\<exists>cs'. children n' = Some cs' \<and> length cs' \<le> length cs)"
  shows "P (props n') (count n')"
proof (cases "children n")
  case None
  with assms show ?thesis by simp
next
  case (Some cs)
  with assms(5) obtain cs' where "children n' = Some cs'" "length cs' \<le> length cs" by blast
  with assms(1,2,3) Some show ?thesis
    unfolding shrink_stable_def count_def by auto
qed

lemma standalone_every:
  assumes st: "merge_stable P" "shrink_stable P"
  shows "processStandaloneInParent n = Some n' \<Longrightarrow> every_child S P n \<Longrightarrow> every_child S P n'"
    and "standalone_loop cs = Some cs' \<Longrightarrow> list_all (every_node S P) cs \<Longrightarrow> list_all (every_node S P) cs'"
proof (induction n and cs arbitrary: n' and cs' rule: processStandaloneInParent_standalone_loop.induct)
  case (1 parent)
  show ?case
  proof (cases "children parent")
    case None
    with "1.prems" show ?thesis by (simp add: processStandaloneInParent.simps(1)[of parent])
  next
    case (Some cs)
    with "1.prems"(1) obtain cs' where l: "standalone_loop cs = Some cs'"
      and n': "n' = Node (props parent) (Some cs')"
      by (auto simp: processStandaloneInParent.simps(1) split: bind_splits)
    from "1.prems"(2) Some have "list_all (every_node S P) cs" by (simp add: every_child_def)
    from "1.IH"[OF Some l this] n' show ?thesis by (simp add: every_child_def)
  qed
next
  case 2
  then show ?case by simp
next
  case (3 child rest)
  note unf = standalone_loop_Cons[of child rest]
  from "3.prems"(1) obtain sa where g: "getStandaloneAttributesFromParagraph child = Some sa"
    by (auto simp: unf split: bind_splits)
  from "3.prems"(2) have ec: "every_node S P child" and er: "list_all (every_node S P) rest" by simp_all
  show ?case
  proof (cases "sa \<noteq> None \<and> rest \<noteq> [] \<and> areDirectlyAdjacent child (hd rest)")
    case True
    with "3.prems"(1) g obtain next' where
      m: "mergeAttributesToNode (hd rest) (str_attrs (attributes (props (the sa)))) = Some next'"
      and l: "standalone_loop (next' # tl rest) = Some cs'"
      by (auto simp: unf split: bind_splits)
    from True er have "every_node S P (hd rest)" "list_all (every_node S P) (tl rest)"
      by (cases rest; simp)+
    with every_node_merge[OF st(1) _ m] have "list_all (every_node S P) (next' # tl rest)" by simp
    from "3.IH"(1)[OF g True m l this] show ?thesis .
  next
    case False
    with "3.prems"(1) g obtain child' rest' where
      c: "(if children child \<noteq> None then processStandaloneInParent child else Some child) = Some child'"
      and l: "standalone_loop rest = Some rest'" and cs': "cs' = child' # rest'"
      by (auto simp: unf split: bind_splits)
    have "every_node S P child'"
    proof (cases "children child \<noteq> None")
      case True
      with c have p: "processStandaloneInParent child = Some child'" by simp
      from ec have P0: "P (props child) (count child)" by (simp only: every_node_iff)
      from standalone_root[OF p] have "P (props child') (count child')"
        by (intro shrink_root[OF st(2) P0]) auto
      moreover have "every_child S P child'" if "ntype (props child) \<notin> S"
        using "3.IH"(2)[OF g False True p] ec that by (simp only: every_node_iff) simp
      ultimately show ?thesis using standalone_root(1)[OF p]
        by (auto simp: every_node_iff)
    next
      case False
      with c ec show ?thesis by simp
    qed
    with "3.IH"(3)[OF g False c l er] cs' show ?thesis by simp
  qed
qed


text \<open>A paragraph has a \<^verbatim>\<open>children\<close> field: what \<^verbatim>\<open>getStandaloneAttributesFromParagraph\<close>
  needs to return.\<close>

definition paragraph_has_children :: "props \<Rightarrow> nat option \<Rightarrow> bool" where
  "paragraph_has_children p k = (ntype p \<noteq> ''paragraph'' \<or> k \<noteq> None)"

lemma getStandalone_total_iff:
  "getStandaloneAttributesFromParagraph c \<noteq> None \<longleftrightarrow> paragraph_has_children (props c) (count c)"
  by (auto simp: getStandaloneAttributesFromParagraph_def paragraph_has_children_def count_def
      split: option.splits)

lemma getStandalone_plain:
  assumes "paragraph_has_children (props c) (count c)" "every_child {} not_fragment c"
  shows "getStandaloneAttributesFromParagraph c = Some None"
proof (cases "ntype (props c) = ''paragraph''")
  case False
  then show ?thesis by (simp add: getStandaloneAttributesFromParagraph_def)
next
  case True
  with assms(1) obtain cs where cs: "children c = Some cs"
    by (auto simp: paragraph_has_children_def count_def)
  show ?thesis
  proof (cases "length cs = 1")
    case False
    with True cs show ?thesis by (simp add: getStandaloneAttributesFromParagraph_def)
  next
    case l: True
    with assms(2) cs have "fragment_free (cs ! 0)"
      by (simp add: every_child_def list_all_length)
    then have "not_fragment (props (cs ! 0)) (count (cs ! 0))" by (simp only: every_node_iff)
    then have "ntype (props (cs ! 0)) \<noteq> ''mdastAttributes''" by (simp add: not_fragment_def)
    with True cs l show ?thesis by (simp add: getStandaloneAttributesFromParagraph_def)
  qed
qed

lemma standalone_establishes:
  shows "processStandaloneInParent n = Some n' \<Longrightarrow> every_child {} paragraph_has_children n'"
    and "standalone_loop cs = Some cs' \<Longrightarrow> list_all (every_node {} paragraph_has_children) cs'"
proof (induction n and cs arbitrary: n' and cs' rule: processStandaloneInParent_standalone_loop.induct)
  case (1 parent)
  show ?case
  proof (cases "children parent")
    case None
    with "1.prems" show ?thesis
      by (simp add: processStandaloneInParent.simps[of parent] every_child_def)
  next
    case (Some cs)
    with "1.prems"(1) obtain cs' where l: "standalone_loop cs = Some cs'"
      and n': "n' = Node (props parent) (Some cs')"
      by (auto simp: processStandaloneInParent.simps[of parent] split: bind_splits)
    from "1.IH"[OF Some l] n' show ?thesis by (simp add: every_child_def)
  qed
next
  case 2
  then show ?case by simp
next
  case (3 child rest)
  note unf = standalone_loop_Cons[of child rest]
  from "3.prems"(1) obtain sa where g: "getStandaloneAttributesFromParagraph child = Some sa"
    by (auto simp: unf split: bind_splits)
  show ?case
  proof (cases "sa \<noteq> None \<and> rest \<noteq> [] \<and> areDirectlyAdjacent child (hd rest)")
    case True
    with "3.prems"(1) g obtain next' where
      m: "mergeAttributesToNode (hd rest) (str_attrs (attributes (props (the sa)))) = Some next'"
      and l: "standalone_loop (next' # tl rest) = Some cs'"
      by (auto simp: unf split: bind_splits)
    from "3.IH"(1)[OF g True m l] show ?thesis .
  next
    case False
    with "3.prems"(1) g obtain child' rest' where
      c: "(if children child \<noteq> None then processStandaloneInParent child else Some child) = Some child'"
      and l: "standalone_loop rest = Some rest'" and cs': "cs' = child' # rest'"
      by (auto simp: unf split: bind_splits)
    from g have ph: "paragraph_has_children (props child) (count child)"
      using getStandalone_total_iff[of child] by simp
    have "every_node {} paragraph_has_children child'"
    proof (cases "children child \<noteq> None")
      case True
      with c have p: "processStandaloneInParent child = Some child'" by simp
      from True obtain cs0 where "children child = Some cs0" by auto
      from standalone_root(3)[OF p this] standalone_root(1)[OF p]
      have "paragraph_has_children (props child') (count child')"
        by (auto simp: paragraph_has_children_def count_def)
      with "3.IH"(2)[OF g False True p] show ?thesis
        by (simp only: every_node_iff) simp
    next
      case False
      with c have "child' = child" by simp
      with False ph show ?thesis
        by (simp add: every_node_iff every_child_def)
    qed
    with "3.IH"(3)[OF g False c l] cs' show ?thesis by simp
  qed
qed

lemma standalone_identity:
  shows "every_child {} not_fragment n \<Longrightarrow> every_child {} paragraph_has_children n \<Longrightarrow>
           processStandaloneInParent n = Some n"
    and "list_all fragment_free cs \<Longrightarrow> list_all (every_node {} paragraph_has_children) cs \<Longrightarrow>
           standalone_loop cs = Some cs"
proof (induction n and cs rule: processStandaloneInParent_standalone_loop.induct)
  case (1 parent)
  show ?case
  proof (cases "children parent")
    case None
    then show ?thesis by (simp add: processStandaloneInParent.simps[of parent])
  next
    case (Some cs)
    with "1.prems" have "list_all fragment_free cs" "list_all (every_node {} paragraph_has_children) cs"
      by (simp_all add: every_child_def)
    from "1.IH"[OF Some this] Some show ?thesis
      by (cases parent) (simp add: processStandaloneInParent.simps)
  qed
next
  case 2
  then show ?case by simp
next
  case (3 child rest)
  note unf = standalone_loop_Cons[of child rest]
  from "3.prems" have ec: "fragment_free child" "every_node {} paragraph_has_children child"
    and er: "list_all fragment_free rest" "list_all (every_node {} paragraph_has_children) rest"
    by simp_all
  from ec have k: "every_child {} not_fragment child" "every_child {} paragraph_has_children child"
    and "paragraph_has_children (props child) (count child)"
    by (simp_all only: every_node_iff) simp_all
  then have g: "getStandaloneAttributesFromParagraph child = Some None"
    using getStandalone_plain[of child] by simp
  have f: "\<not> (None \<noteq> (None :: node option) \<and> rest \<noteq> [] \<and> areDirectlyAdjacent child (hd rest))"
    by simp
  have c: "(if children child \<noteq> None then processStandaloneInParent child else Some child) = Some child"
    using "3.IH"(2)[OF g f _ k] by simp
  from "3.IH"(3)[OF g f c er] g c show ?case by (simp add: unf)
qed

lemma standalone_total:
  shows "every_child {} paragraph_has_children n \<Longrightarrow> processStandaloneInParent n \<noteq> None"
    and "list_all (every_node {} paragraph_has_children) cs \<Longrightarrow> standalone_loop cs \<noteq> None"
proof (induction n and cs rule: processStandaloneInParent_standalone_loop.induct)
  case (1 parent)
  show ?case
  proof (cases "children parent")
    case None
    then show ?thesis by (simp add: processStandaloneInParent.simps[of parent])
  next
    case (Some cs)
    with "1.prems" have "list_all (every_node {} paragraph_has_children) cs" by (simp add: every_child_def)
    from "1.IH"[OF Some this] Some show ?thesis
      by (auto simp: processStandaloneInParent.simps[of parent])
  qed
next
  case 2
  then show ?case by simp
next
  case (3 child rest)
  note unf = standalone_loop_Cons[of child rest]
  have ms: "merge_stable paragraph_has_children"
    by (auto simp: merge_stable_def paragraph_has_children_def dest: mergeAttributesToNode_frame(1))
  from "3.prems" have ec: "every_node {} paragraph_has_children child"
    and er: "list_all (every_node {} paragraph_has_children) rest"
    by simp_all
  from ec have "paragraph_has_children (props child) (count child)"
    and k: "every_child {} paragraph_has_children child"
    by (simp_all only: every_node_iff) simp_all
  then obtain sa where g: "getStandaloneAttributesFromParagraph child = Some sa"
    using getStandalone_total_iff[of child] by auto
  show ?case
  proof (cases "sa \<noteq> None \<and> rest \<noteq> [] \<and> areDirectlyAdjacent child (hd rest)")
    case True
    obtain next' where
      m: "mergeAttributesToNode (hd rest) (str_attrs (attributes (props (the sa)))) = Some next'"
      using mergeAttributesToNode_str_total by blast
    from True er have "every_node {} paragraph_has_children (hd rest)"
      "list_all (every_node {} paragraph_has_children) (tl rest)"
      by (cases rest; simp)+
    with every_node_merge[OF ms _ m] have "list_all (every_node {} paragraph_has_children) (next' # tl rest)"
      by simp
    from "3.IH"(1)[OF g True m this] g True m show ?thesis by (simp add: unf)
  next
    case False
    obtain child' where
      c: "(if children child \<noteq> None then processStandaloneInParent child else Some child) = Some child'"
      using "3.IH"(2)[OF g False _ k] by (cases "children child \<noteq> None") auto
    from "3.IH"(3)[OF g False c er] g False c show ?thesis by (auto simp: unf)
  qed
qed


subsection \<open>The trailing pass\<close>

lemma trailing_loop_length:
  "trailing_loop prev rest = Some cs' \<Longrightarrow> length cs' \<le> Suc (length rest)"
proof (induction rest arbitrary: prev cs')
  case Nil
  then show ?case by auto
next
  case (Cons child rest)
  from Cons.prems obtain sa where
    g: "(if ntype (props prev) = ''thematicBreak'' then getStandaloneAttributesFromParagraph child
         else Some None) = Some sa"
    by (auto split: bind_splits)
  show ?case
  proof (cases "sa \<noteq> None \<and> areDirectlyAdjacent prev child")
    case True
    with Cons.prems g obtain prev' where "trailing_loop prev' rest = Some cs'"
      by (auto split: bind_splits)
    from Cons.IH[OF this] show ?thesis by simp
  next
    case False
    with Cons.prems g obtain child' cs1 where "trailing_loop child' rest = Some cs1"
      and "cs' = prev # cs1"
      by (auto split: bind_splits)
    with Cons.IH[of child' cs1] show ?thesis by simp
  qed
qed

lemma trailing_root:
  assumes "processTrailingInParent n = Some n'"
  shows "props n' = props n"
    and "children n = None \<Longrightarrow> n' = n"
    and "children n = Some cs \<Longrightarrow> \<exists>cs'. children n' = Some cs' \<and> length cs' \<le> length cs"
proof -
  show "props n' = props n"
    using assms
    by (cases "children n")
      (auto simp: processTrailingInParent.simps[of n] split: bind_splits list.splits)
  show "children n = None \<Longrightarrow> n' = n"
    using assms by (simp add: processTrailingInParent.simps[of n])
  show "children n = Some cs \<Longrightarrow> \<exists>cs'. children n' = Some cs' \<and> length cs' \<le> length cs"
    using assms trailing_loop_length
    by (cases cs) (auto simp: processTrailingInParent.simps[of n] split: bind_splits)
qed

lemma trailing_every:
  assumes st: "merge_stable P" "shrink_stable P"
  shows "processTrailingInParent n = Some n' \<Longrightarrow> every_child S P n \<Longrightarrow> every_child S P n'"
    and "trailing_loop prev rest = Some cs' \<Longrightarrow> every_node S P prev \<Longrightarrow>
           list_all (every_node S P) rest \<Longrightarrow> list_all (every_node S P) cs'"
proof (induction n and prev rest arbitrary: n' and cs' rule: processTrailingInParent_trailing_loop.induct)
  case (1 parent)
  show ?case
  proof (cases "children parent")
    case None
    with "1.prems" show ?thesis by (simp add: processTrailingInParent.simps[of parent])
  next
    case (Some cs)
    show ?thesis
    proof (cases cs)
      case Nil
      with Some "1.prems" show ?thesis by (simp add: processTrailingInParent.simps[of parent])
    next
      case (Cons first rest)
      with Some "1.prems"(1) obtain cs' where l: "trailing_loop first rest = Some cs'"
        and n': "n' = Node (props parent) (Some cs')"
        by (auto simp: processTrailingInParent.simps[of parent] split: bind_splits)
      from "1.prems"(2) Some Cons have "every_node S P first" "list_all (every_node S P) rest"
        by (simp_all add: every_child_def)
      from "1.IH"[OF Some Cons l this] n' show ?thesis by (simp add: every_child_def)
    qed
  qed
next
  case (2 prev)
  then show ?case by auto
next
  case (3 prev child rest)
  from "3.prems"(1) obtain sa where
    g: "(if ntype (props prev) = ''thematicBreak'' then getStandaloneAttributesFromParagraph child
         else Some None) = Some sa"
    by (auto split: bind_splits)
  from "3.prems"(3) have ec: "every_node S P child" and er: "list_all (every_node S P) rest" by simp_all
  show ?case
  proof (cases "sa \<noteq> None \<and> areDirectlyAdjacent prev child")
    case True
    with "3.prems"(1) g obtain prev' where
      m: "mergeAttributesToNode prev (str_attrs (attributes (props (the sa)))) = Some prev'"
      and l: "trailing_loop prev' rest = Some cs'"
      by (auto split: bind_splits)
    from every_node_merge[OF st(1) "3.prems"(2) m] have "every_node S P prev'" .
    from "3.IH"(1)[OF g True m l this er] show ?thesis .
  next
    case False
    with "3.prems"(1) g obtain child' cs1 where
      c: "(if children child \<noteq> None then processTrailingInParent child else Some child) = Some child'"
      and l: "trailing_loop child' rest = Some cs1" and cs': "cs' = prev # cs1"
      by (auto split: bind_splits)
    have "every_node S P child'"
    proof (cases "children child \<noteq> None")
      case True
      with c have p: "processTrailingInParent child = Some child'" by simp
      from ec have P0: "P (props child) (count child)" by (simp only: every_node_iff)
      from trailing_root[OF p] have "P (props child') (count child')"
        by (intro shrink_root[OF st(2) P0]) auto
      moreover have "every_child S P child'" if "ntype (props child) \<notin> S"
        using "3.IH"(2)[OF g False True p] ec that by (simp only: every_node_iff) simp
      ultimately show ?thesis using trailing_root(1)[OF p]
        by (auto simp: every_node_iff)
    next
      case False
      with c ec show ?thesis by simp
    qed
    from "3.IH"(3)[OF g False c l this er] cs' "3.prems"(2) show ?thesis by simp
  qed
qed

lemma trailing_identity:
  shows "every_child {} not_fragment n \<Longrightarrow> every_child {} paragraph_has_children n \<Longrightarrow>
           processTrailingInParent n = Some n"
    and "list_all fragment_free rest \<Longrightarrow> list_all (every_node {} paragraph_has_children) rest \<Longrightarrow>
           trailing_loop prev rest = Some (prev # rest)"
proof (induction n and prev rest rule: processTrailingInParent_trailing_loop.induct)
  case (1 parent)
  show ?case
  proof (cases "children parent")
    case None
    then show ?thesis by (simp add: processTrailingInParent.simps[of parent])
  next
    case (Some cs)
    show ?thesis
    proof (cases cs)
      case Nil
      with Some show ?thesis by (simp add: processTrailingInParent.simps[of parent])
    next
      case (Cons first rest)
      with Some "1.prems" have "list_all fragment_free rest"
        "list_all (every_node {} paragraph_has_children) rest"
        by (simp_all add: every_child_def)
      from "1.IH"[OF Some Cons this] Some Cons show ?thesis
        by (cases parent) (simp add: processTrailingInParent.simps)
    qed
  qed
next
  case (2 prev)
  then show ?case by simp
next
  case (3 prev child rest)
  from "3.prems" have ec: "fragment_free child" "every_node {} paragraph_has_children child"
    and er: "list_all fragment_free rest" "list_all (every_node {} paragraph_has_children) rest"
    by simp_all
  from ec have k: "every_child {} not_fragment child" "every_child {} paragraph_has_children child"
    and "paragraph_has_children (props child) (count child)"
    by (simp_all only: every_node_iff) simp_all
  then have g0: "getStandaloneAttributesFromParagraph child = Some None"
    using getStandalone_plain[of child] by simp
  then have g: "(if ntype (props prev) = ''thematicBreak'' then getStandaloneAttributesFromParagraph child
         else Some None) = Some None" by simp
  have f: "\<not> (None \<noteq> (None :: node option) \<and> areDirectlyAdjacent prev child)" by simp
  have c: "(if children child \<noteq> None then processTrailingInParent child else Some child) = Some child"
    using "3.IH"(2)[OF g f _ k] by simp
  from "3.IH"(3)[OF g f c er] g0 c show ?case by simp
qed

lemma trailing_total:
  shows "every_child {} paragraph_has_children n \<Longrightarrow> processTrailingInParent n \<noteq> None"
    and "list_all (every_node {} paragraph_has_children) rest \<Longrightarrow> trailing_loop prev rest \<noteq> None"
proof (induction n and prev rest rule: processTrailingInParent_trailing_loop.induct)
  case (1 parent)
  show ?case
  proof (cases "children parent")
    case None
    then show ?thesis by (simp add: processTrailingInParent.simps[of parent])
  next
    case (Some cs)
    show ?thesis
    proof (cases cs)
      case Nil
      with Some show ?thesis by (simp add: processTrailingInParent.simps[of parent])
    next
      case (Cons first rest)
      with Some "1.prems" have "list_all (every_node {} paragraph_has_children) rest"
        by (simp add: every_child_def)
      from "1.IH"[OF Some Cons this] Some Cons show ?thesis
        by (auto simp: processTrailingInParent.simps[of parent])
    qed
  qed
next
  case (2 prev)
  then show ?case by simp
next
  case (3 prev child rest)
  from "3.prems" have ec: "every_node {} paragraph_has_children child"
    and er: "list_all (every_node {} paragraph_has_children) rest"
    by simp_all
  from ec have "paragraph_has_children (props child) (count child)"
    and k: "every_child {} paragraph_has_children child"
    by (simp_all only: every_node_iff) simp_all
  then obtain sa where g: "(if ntype (props prev) = ''thematicBreak''
         then getStandaloneAttributesFromParagraph child else Some None) = Some sa"
    using getStandalone_total_iff[of child]
    by (cases "ntype (props prev) = ''thematicBreak''") auto
  show ?case
  proof (cases "sa \<noteq> None \<and> areDirectlyAdjacent prev child")
    case True
    obtain prev' where
      m: "mergeAttributesToNode prev (str_attrs (attributes (props (the sa)))) = Some prev'"
      using mergeAttributesToNode_str_total by blast
    from "3.IH"(1)[OF g True m er] g True m show ?thesis by simp
  next
    case False
    obtain child' where
      c: "(if children child \<noteq> None then processTrailingInParent child else Some child) = Some child'"
      using "3.IH"(2)[OF g False _ k] by (cases "children child \<noteq> None") auto
    from "3.IH"(3)[OF g False c er] g False c show ?thesis by auto
  qed
qed


subsection \<open>The thematic-break pass\<close>

text \<open>The body of the loop of \<^verbatim>\<open>processThematicBreaksInParent\<close>.\<close>

definition thematic_step :: "node \<Rightarrow> node option" where
  "thematic_step child =
     flattenThematicBreak child \<bind>
       (\<lambda>child'. if children child' \<noteq> None then processThematicBreaksInParent child' else Some child')"

lemma thematic_unfold:
  "processThematicBreaksInParent parent =
     (case children parent of
        None \<Rightarrow> Some parent
      | Some cs \<Rightarrow> those (map thematic_step cs) \<bind> (\<lambda>cs'. Some (Node (props parent) (Some cs'))))"
  by (subst processThematicBreaksInParent.simps)
    (cases "children parent"; simp add: thematic_step_def[abs_def])

lemma thematic_root:
  assumes "processThematicBreaksInParent n = Some n'"
  shows "props n' = props n" and "count n' = count n"
proof -
  show "props n' = props n"
    using assms
    by (cases "children n") (auto simp: thematic_unfold[of n] split: bind_splits)
  show "count n' = count n"
    using assms
    by (cases "children n")
      (auto simp: thematic_unfold[of n] count_def those_map_Some split: bind_splits)
qed

lemma mergeAttrChildren_total: "\<exists>c'. mergeAttrChildren c rest = Some c'"
proof (induction rest arbitrary: c)
  case Nil
  then show ?case by simp
next
  case (Cons a rest)
  obtain c1 where "mergeAttributesToNode c (str_attrs (attributes (props a))) = Some c1"
    using mergeAttributesToNode_str_total by blast
  with Cons[of c1] Cons[of c] show ?case by auto
qed

lemma mergeAttrChildren_stable:
  assumes "merge_stable P"
  shows "mergeAttrChildren c rest = Some c' \<Longrightarrow> P (props c) k \<Longrightarrow>
           P (props c') k \<and> ntype (props c') = ntype (props c)"
proof (induction rest arbitrary: c)
  case Nil
  then show ?case by simp
next
  case (Cons a rest)
  show ?case
  proof (cases "ntype (props a) = ''mdastAttributes''")
    case True
    with Cons.prems(1) obtain c1 where
      m: "mergeAttributesToNode c (str_attrs (attributes (props a))) = Some c1"
      and r: "mergeAttrChildren c1 rest = Some c'"
      by (auto split: bind_splits)
    from assms Cons.prems(2) m have "P (props c1) k" unfolding merge_stable_def by blast
    from Cons.IH[OF r this] mergeAttributesToNode_frame(1)[OF m] show ?thesis by simp
  next
    case False
    with Cons show ?thesis by simp
  qed
qed

lemma flatten_cases:
  assumes "flattenThematicBreak c = Some c1"
  obtains (same) "c1 = c" "ntype (props c) \<noteq> ''thematicBreak'' \<or> children c = None \<or> children c = Some []"
  | (flat) a rest cm where "ntype (props c) = ''thematicBreak''" "children c = Some (a # rest)"
      "mergeAttrChildren c (a # rest) = Some cm" "c1 = Node (props cm) None"
  using assms
  by (auto simp: flattenThematicBreak_def split: if_splits option.splits list.splits bind_splits)

lemma flatten_total: "\<exists>c1. flattenThematicBreak c = Some c1"
proof (cases "ntype (props c) = ''thematicBreak''")
  case False
  then show ?thesis by (simp add: flattenThematicBreak_def)
next
  case True
  show ?thesis
  proof (cases "children c")
    case None
    with True show ?thesis by (simp add: flattenThematicBreak_def)
  next
    case (Some cs)
    show ?thesis
    proof (cases cs)
      case Nil
      with True Some show ?thesis by (simp add: flattenThematicBreak_def)
    next
      case (Cons a rest)
      obtain cm where "mergeAttrChildren c (a # rest) = Some cm"
        using mergeAttrChildren_total by blast
      with True Some Cons show ?thesis by (simp add: flattenThematicBreak_def)
    qed
  qed
qed

lemma flatten_every:
  assumes "merge_stable P" "flat_stable P" "every_node S P c" "flattenThematicBreak c = Some c1"
  shows "every_node S P c1 \<and> ntype (props c1) = ntype (props c)"
  using assms(4)
proof (cases rule: flatten_cases)
  case same
  with assms(3) show ?thesis by simp
next
  case (flat a rest cm)
  from assms(3) flat(2) have "P (props c) (Some (length (a # rest)))"
    by (simp only: every_node_iff) (simp add: count_def)
  from mergeAttrChildren_stable[OF assms(1) flat(3) this]
  have "P (props cm) (Some (length (a # rest)))" and t: "ntype (props cm) = ntype (props c)" by simp_all
  with assms(2) flat(1) have "P (props cm) None" unfolding flat_stable_def by metis
  with flat(4) t show ?thesis by simp
qed

lemma thematic_every:
  assumes st: "merge_stable P" "flat_stable P"
  shows "processThematicBreaksInParent n = Some n' \<Longrightarrow> every_child S P n \<Longrightarrow> every_child S P n'"
proof (induction n arbitrary: n' rule: processThematicBreaksInParent.induct)
  case (1 parent)
  show ?case
  proof (cases "children parent")
    case None
    with "1.prems" show ?thesis by (simp add: thematic_unfold[of parent])
  next
    case (Some cs)
    with "1.prems"(1) obtain cs' where t: "those (map thematic_step cs) = Some cs'"
      and n': "n' = Node (props parent) (Some cs')"
      by (auto simp: thematic_unfold[of parent] split: bind_splits)
    from t have l: "length cs' = length cs" and each: "\<forall>i<length cs. thematic_step (cs ! i) = Some (cs' ! i)"
      by (simp_all add: those_map_Some)
    from "1.prems"(2) Some have all: "list_all (every_node S P) cs" by (simp add: every_child_def)
    have "every_node S P (cs' ! i)" if i: "i < length cs" for i
    proof -
      from each i obtain c1 where f: "flattenThematicBreak (cs ! i) = Some c1"
        and r: "(if children c1 \<noteq> None then processThematicBreaksInParent c1 else Some c1) = Some (cs' ! i)"
        by (auto simp: thematic_step_def split: bind_splits)
      from all i have "every_node S P (cs ! i)" by (simp add: list_all_length)
      from flatten_every[OF st this f] have e1: "every_node S P c1" by simp
      show ?thesis
      proof (cases "children c1 \<noteq> None")
        case True
        with r have p: "processThematicBreaksInParent c1 = Some (cs' ! i)" by simp
        from i have "cs ! i \<in> set cs" by simp
        from "1.IH"[OF Some this f True p] e1 thematic_root[OF p] show ?thesis
          by (auto simp: every_node_iff)
      next
        case False
        with r e1 show ?thesis by simp
      qed
    qed
    with l n' show ?thesis by (simp add: every_child_def list_all_length)
  qed
qed

text \<open>A thematic break has no children.\<close>

definition flat_break :: "props \<Rightarrow> nat option \<Rightarrow> bool" where
  "flat_break p k = (ntype p \<noteq> ''thematicBreak'' \<or> k = None \<or> k = Some 0)"

lemma thematic_establishes:
  "processThematicBreaksInParent n = Some n' \<Longrightarrow> every_child {} flat_break n'"
proof (induction n arbitrary: n' rule: processThematicBreaksInParent.induct)
  case (1 parent)
  show ?case
  proof (cases "children parent")
    case None
    with "1.prems" show ?thesis by (simp add: thematic_unfold[of parent] every_child_def)
  next
    case (Some cs)
    with "1.prems"(1) obtain cs' where t: "those (map thematic_step cs) = Some cs'"
      and n': "n' = Node (props parent) (Some cs')"
      by (auto simp: thematic_unfold[of parent] split: bind_splits)
    from t have l: "length cs' = length cs" and each: "\<forall>i<length cs. thematic_step (cs ! i) = Some (cs' ! i)"
      by (simp_all add: those_map_Some)
    have "every_node {} flat_break (cs' ! i)" if i: "i < length cs" for i
    proof -
      from each i obtain c1 where f: "flattenThematicBreak (cs ! i) = Some c1"
        and r: "(if children c1 \<noteq> None then processThematicBreaksInParent c1 else Some c1) = Some (cs' ! i)"
        by (auto simp: thematic_step_def split: bind_splits)
      from f have fb: "flat_break (props c1) (count c1)"
      proof (cases rule: flatten_cases)
        case same
        then show ?thesis by (auto simp: flat_break_def count_def)
      next
        case (flat a rest cm)
        then show ?thesis by (simp add: flat_break_def count_def)
      qed
      show ?thesis
      proof (cases "children c1 \<noteq> None")
        case True
        with r have p: "processThematicBreaksInParent c1 = Some (cs' ! i)" by simp
        from i have "cs ! i \<in> set cs" by simp
        from "1.IH"[OF Some this f True p] fb thematic_root[OF p] show ?thesis
          by (simp only: every_node_iff) simp
      next
        case False
        with r have "cs' ! i = c1" by simp
        with False fb show ?thesis
          by (simp add: every_node_iff every_child_def)
      qed
    qed
    with l n' show ?thesis by (simp add: every_child_def list_all_length)
  qed
qed

lemma those_map_id: "(\<forall>x\<in>set xs. f x = Some x) \<Longrightarrow> those (map f xs) = Some xs"
  by (induction xs) auto

lemma thematic_identity:
  "every_child {} flat_break n \<Longrightarrow> processThematicBreaksInParent n = Some n"
proof (induction n rule: processThematicBreaksInParent.induct)
  case (1 parent)
  show ?case
  proof (cases "children parent")
    case None
    then show ?thesis by (simp add: thematic_unfold[of parent])
  next
    case (Some cs)
    with "1.prems" have all: "list_all (every_node {} flat_break) cs" by (simp add: every_child_def)
    have "thematic_step c = Some c" if c: "c \<in> set cs" for c
    proof -
      from all c have e: "every_node {} flat_break c" by (simp add: list_all_iff)
      then have "flat_break (props c) (count c)" and k: "every_child {} flat_break c"
        by (simp_all only: every_node_iff) simp_all
      then have f: "flattenThematicBreak c = Some c"
        by (auto simp: flattenThematicBreak_def flat_break_def count_def split: option.splits list.splits)
      show ?thesis
      proof (cases "children c \<noteq> None")
        case True
        from "1.IH"[OF Some c f True k] f True show ?thesis by (simp add: thematic_step_def)
      next
        case False
        with f show ?thesis by (simp add: thematic_step_def)
      qed
    qed
    then have "those (map thematic_step cs) = Some cs" by (intro those_map_id) simp
    with Some show ?thesis by (cases parent) (simp add: thematic_unfold)
  qed
qed

lemma thematic_total: "processThematicBreaksInParent n \<noteq> None"
proof (induction n rule: processThematicBreaksInParent.induct)
  case (1 parent)
  show ?case
  proof (cases "children parent")
    case None
    then show ?thesis by (simp add: thematic_unfold[of parent])
  next
    case (Some cs)
    have "thematic_step c \<noteq> None" if c: "c \<in> set cs" for c
    proof -
      obtain c1 where f: "flattenThematicBreak c = Some c1" using flatten_total by blast
      show ?thesis
      proof (cases "children c1 \<noteq> None")
        case True
        from "1.IH"[OF Some c f True] f True show ?thesis by (simp add: thematic_step_def)
      next
        case False
        with f show ?thesis by (simp add: thematic_step_def)
      qed
    qed
    then have "those (map thematic_step cs) \<noteq> None"
      by (intro those_map_total) (simp add: list_all_iff)
    with Some show ?thesis by (auto simp: thematic_unfold[of parent])
  qed
qed


subsection \<open>The code-block pass\<close>

text \<open>A code node carries no \<^verbatim>\<open>data.mdastAttributes\<close>.\<close>

definition no_side_channel :: "props \<Rightarrow> nat option \<Rightarrow> bool" where
  "no_side_channel p k = (ntype p \<noteq> ''code'' \<or> side_channel p = None)"

text \<open>
  The nodes of a well-formed input: a paragraph and a list item have a \<^verbatim>\<open>children\<close>
  field, as mdast requires, and a \<^verbatim>\<open>class\<close> entry of \<^verbatim>\<open>hProperties\<close>, if there is one, is a
  string. On trees of such nodes no pass throws.
\<close>

definition well_formed :: "props \<Rightarrow> nat option \<Rightarrow> bool" where
  "well_formed p k =
     ((ntype p \<noteq> ''paragraph'' \<and> ntype p \<noteq> ''listItem'' \<or> k \<noteq> None)
      \<and> (case data p \<bind> hProperties of None \<Rightarrow> True | Some hp \<Rightarrow> class_is_string hp))"


lemma code_total: "processCodeBlocks n \<noteq> None"
proof (induction n rule: processCodeBlocks.induct)
  case (1 p ch)
  show ?case
  proof (cases "ntype p = ''code''")
    case True
    show ?thesis
    proof (cases "data p \<bind> mdastAttributes")
      case None
      with True show ?thesis by simp
    next
      case (Some side)
      obtain hp' where "mergeAttributes
          (case hProperties (case data p of None \<Rightarrow> empty_data | Some d \<Rightarrow> d) of None \<Rightarrow> [] | Some h \<Rightarrow> h)
          (str_attrs side) (Some (Node p ch)) = Some hp'"
        using mergeAttributes_str_total by blast
      with True Some show ?thesis by (simp add: Let_def)
    qed
  next
    case False
    show ?thesis
    proof (cases ch)
      case None
      with False show ?thesis by simp
    next
      case (Some cs)
      from "1.IH"[OF False Some] have "those (map processCodeBlocks cs) \<noteq> None"
        by (intro those_map_total) (simp add: list_all_iff)
      with False Some show ?thesis by auto
    qed
  qed
qed

lemma code_establishes:
  "processCodeBlocks n = Some n' \<Longrightarrow> every_node {''code''} no_side_channel n'"
proof (induction n arbitrary: n' rule: processCodeBlocks.induct)
  case (1 p ch)
  show ?case
  proof (cases "ntype p = ''code''")
    case True
    with "1.prems" show ?thesis
      by (auto simp: Let_def no_side_channel_def side_channel_def split: option.splits bind_splits)
  next
    case False
    show ?thesis
    proof (cases ch)
      case None
      from False have "no_side_channel p None" by (simp add: no_side_channel_def)
      with None False "1.prems" show ?thesis by auto
    next
      case (Some cs)
      with False "1.prems" obtain cs' where t: "those (map processCodeBlocks cs) = Some cs'"
        and n': "n' = Node p (Some cs')"
        by (auto split: bind_splits)
      from t have l: "length cs' = length cs"
        and each: "\<forall>i<length cs. processCodeBlocks (cs ! i) = Some (cs' ! i)"
        by (simp_all add: those_map_Some)
      have "every_node {''code''} no_side_channel (cs' ! i)" if "i < length cs" for i
        using "1.IH"[OF False Some, of "cs ! i" "cs' ! i"] each that by simp
      moreover from False have "no_side_channel p (Some (length cs'))"
        by (simp add: no_side_channel_def)
      ultimately show ?thesis using l n' by (simp add: list_all_length)
    qed
  qed
qed

lemma code_identity:
  "every_node {''code''} no_side_channel n \<Longrightarrow> processCodeBlocks n = Some n"
proof (induction n rule: processCodeBlocks.induct)
  case (1 p ch)
  show ?case
  proof (cases "ntype p = ''code''")
    case True
    with "1.prems" show ?thesis by (simp add: no_side_channel_def side_channel_def)
  next
    case False
    show ?thesis
    proof (cases ch)
      case None
      with False show ?thesis by simp
    next
      case (Some cs)
      with False "1.prems" have "list_all (every_node {''code''} no_side_channel) cs" by simp
      with "1.IH"[OF False Some] have "those (map processCodeBlocks cs) = Some cs"
        by (intro those_map_id) (simp add: list_all_iff)
      with False Some show ?thesis by simp
    qed
  qed
qed

lemma mergeAttributes_class_is_string:
  "class_is_string target \<Longrightarrow> mergeAttributes target (str_attrs a) node = Some b \<Longrightarrow> class_is_string b"
proof (induction a arbitrary: target)
  case Nil
  then show ?case by (simp add: str_attrs_def)
next
  case (Cons e a)
  obtain k v where e: "e = (k, v)" by (cases e)
  have upd: "class_is_string (AList.update k' v' t)"
    if "class_is_string t" "k' \<noteq> ''class'' \<or> (case v' of Str _ \<Rightarrow> True | Toks _ \<Rightarrow> False)" for k' v' t
    using that by (induction t) (auto simp: class_is_string_def)
  show ?case
  proof (cases "k = ''class''")
    case True
    with Cons.prems e show ?thesis
      using Cons.IH[OF upd[of target "''className''"]]
      by (simp add: str_attrs_def Let_def)
  next
    case False
    with Cons.prems e show ?thesis
      using Cons.IH[OF upd[of target k "Str v"]]
      by (simp add: str_attrs_def)
  qed
qed

lemma well_formed_stable: "stable well_formed"
proof -
  have "merge_stable well_formed"
    unfolding merge_stable_def
  proof (intro allI impI)
    fix n b n' k
    assume w: "well_formed (props n) k" and m: "mergeAttributesToNode n (str_attrs b) = Some n'"
    from m obtain hp' where
      hp: "mergeAttributes (case hProperties (case data (props n) of None \<Rightarrow> empty_data | Some d \<Rightarrow> d)
                            of None \<Rightarrow> [] | Some h \<Rightarrow> h) (str_attrs b) (Some n) = Some hp'"
      and d: "data (props n') \<bind> hProperties = Some hp'"
      by (auto simp: mergeAttributesToNode_def Let_def split: bind_splits)
    from w have "class_is_string (case hProperties (case data (props n) of None \<Rightarrow> empty_data | Some d \<Rightarrow> d)
                            of None \<Rightarrow> [] | Some h \<Rightarrow> h)"
      by (auto simp: well_formed_def empty_data_def class_is_string_def split: option.splits)
    from mergeAttributes_class_is_string[OF this hp] d w mergeAttributesToNode_frame(1)[OF m]
    show "well_formed (props n') k"
      by (simp add: well_formed_def)
  qed
  moreover have "shrink_stable well_formed"
    by (simp add: shrink_stable_def well_formed_def)
  moreover have "text_ok well_formed"
    by (simp add: text_ok_def well_formed_def textNode_def)
  moreover have "flat_stable well_formed"
    by (simp add: flat_stable_def well_formed_def)
  ultimately show ?thesis by (simp add: stable_def)
qed

lemma code_well_formed:
  "processCodeBlocks n = Some n' \<Longrightarrow> every_node {} well_formed n \<Longrightarrow> every_node {} well_formed n'"
proof (induction n arbitrary: n' rule: processCodeBlocks.induct)
  case (1 p ch)
  show ?case
  proof (cases "ntype p = ''code''")
    case True
    show ?thesis
    proof (cases "data p \<bind> mdastAttributes")
      case None
      with True "1.prems" show ?thesis by simp
    next
      case (Some side)
      let ?hp = "case hProperties (case data p of None \<Rightarrow> empty_data | Some d \<Rightarrow> d) of None \<Rightarrow> [] | Some h \<Rightarrow> h"
      from True Some "1.prems"(1) obtain hp' where
        m: "mergeAttributes ?hp (str_attrs side) (Some (Node p ch)) = Some hp'"
        and n': "n' = Node (p\<lparr>data := Some ((case data p of None \<Rightarrow> empty_data | Some d \<Rightarrow> d)
                                \<lparr>hProperties := Some hp', mdastAttributes := None\<rparr>)\<rparr>) ch"
        by (auto simp: Let_def split: bind_splits)
      from "1.prems"(2) have "class_is_string ?hp"
        by (auto simp: well_formed_def empty_data_def class_is_string_def split: option.splits)
      from mergeAttributes_class_is_string[OF this m] "1.prems"(2) n' show ?thesis
        by (simp add: well_formed_def)
    qed
  next
    case False
    show ?thesis
    proof (cases ch)
      case None
      with False "1.prems" show ?thesis by simp
    next
      case (Some cs)
      with False "1.prems" obtain cs' where t: "those (map processCodeBlocks cs) = Some cs'"
        and n': "n' = Node p (Some cs')"
        by (auto split: bind_splits)
      from t have l: "length cs' = length cs"
        and each: "\<forall>i<length cs. processCodeBlocks (cs ! i) = Some (cs' ! i)"
        by (simp_all add: those_map_Some)
      from "1.prems"(2) Some have all: "list_all (every_node {} well_formed) cs" by simp
      have "every_node {} well_formed (cs' ! i)" if "i < length cs" for i
        using "1.IH"[OF False Some, of "cs ! i" "cs' ! i"] each that all by (simp add: list_all_length)
      with l n' "1.prems"(2) Some show ?thesis by (simp add: list_all_length)
    qed
  qed
qed


subsection \<open>The invariants of the transform\<close>

lemma blind_stable: "blind P \<Longrightarrow> shrink_stable P \<Longrightarrow> text_ok P \<Longrightarrow> flat_stable P \<Longrightarrow> stable P"
  by (simp add: stable_def blind_merge_stable)

lemma not_fragment_blind: "blind not_fragment"
  by (simp add: blind_def not_fragment_def)

lemma not_fragment_stable: "stable not_fragment"
  by (intro blind_stable not_fragment_blind)
    (simp_all add: shrink_stable_def text_ok_def flat_stable_def not_fragment_def textNode_def)

lemma paragraph_has_children_blind: "blind paragraph_has_children"
  by (simp add: blind_def paragraph_has_children_def)

lemma paragraph_has_children_stable: "stable paragraph_has_children"
  by (intro blind_stable paragraph_has_children_blind)
    (simp_all add: shrink_stable_def text_ok_def flat_stable_def paragraph_has_children_def textNode_def)

lemma no_side_channel_blind: "blind no_side_channel"
  by (simp add: blind_def no_side_channel_def)

lemma no_side_channel_stable: "stable no_side_channel"
  by (intro blind_stable no_side_channel_blind)
    (simp_all add: shrink_stable_def text_ok_def flat_stable_def no_side_channel_def textNode_def)

lemma flat_break_blind: "blind flat_break"
  by (simp add: blind_def flat_break_def)

lemma flat_break_stable: "stable flat_break"
  by (intro blind_stable flat_break_blind)
    (auto simp: shrink_stable_def text_ok_def flat_stable_def flat_break_def textNode_def)


lemma thematic_every_node:
  assumes "stable P" "processThematicBreaksInParent n = Some n'" "every_node S P n"
  shows "every_node S P n'"
  using assms thematic_every[of P n n' S] thematic_root[OF assms(2)]
  by (auto simp: every_node_iff stable_def)

lemma standalone_every_node:
  assumes "stable P" "processStandaloneInParent n = Some n'" "every_node S P n"
  shows "every_node S P n'"
proof -
  from assms(3) have P0: "P (props n) (count n)" by (simp only: every_node_iff)
  from assms(1) have sh: "shrink_stable P" by (simp add: stable_def)
  from standalone_root[OF assms(2)] have "P (props n') (count n')"
    by (intro shrink_root[OF sh P0]) auto
  with assms standalone_every(1)[of P n n' S] standalone_root(1)[OF assms(2)] show ?thesis
    by (auto simp: every_node_iff stable_def)
qed

lemma trailing_every_node:
  assumes "stable P" "processTrailingInParent n = Some n'" "every_node S P n"
  shows "every_node S P n'"
proof -
  from assms(3) have P0: "P (props n) (count n)" by (simp only: every_node_iff)
  from assms(1) have sh: "shrink_stable P" by (simp add: stable_def)
  from trailing_root[OF assms(2)] have "P (props n') (count n')"
    by (intro shrink_root[OF sh P0]) auto
  with assms trailing_every(1)[of P n n' S] trailing_root(1)[OF assms(2)] show ?thesis
    by (auto simp: every_node_iff stable_def)
qed

lemma processNode_every_node:
  assumes "stable P" "processNode n = Some n'" "every_node S P n"
  shows "every_node S P n'"
proof -
  from assms(1) have st: "merge_stable P" "shrink_stable P" "text_ok P" by (simp_all add: stable_def)
  from assms(3) have P0: "P (props n) (count n)" by (simp only: every_node_iff)
  from processNode_root[OF st(1,2) assms(2) P0] assms(3) processNode_every(1)[OF st assms(2), of S]
  show ?thesis by (auto simp: every_node_iff)
qed

lemma every_node_mono:
  assumes "\<And>p k. P p k \<Longrightarrow> Q p k"
  shows "every_node S P n \<Longrightarrow> every_node S Q n"
proof (induction n)
  case (Node p ch)
  show ?case
  proof (cases ch)
    case None
    with Node.prems assms show ?thesis by auto
  next
    case (Some cs)
    with Node have "list_all (every_node S P) cs \<Longrightarrow> list_all (every_node S Q) cs"
      by (auto simp: list_all_iff)
    with Some Node.prems assms show ?thesis by auto
  qed
qed

lemma every_node_child: "every_node {} P n \<Longrightarrow> every_child {} P n"
  by (simp add: every_node_iff)


text \<open>Nothing is left to promote: under a tight list every list item has children, none
  of them a paragraph with a non-empty bag.\<close>

definition item_done :: "node \<Rightarrow> bool" where
  "item_done c =
     (ntype (props c) \<noteq> ''listItem'' \<or>
      (case children c of None \<Rightarrow> False | Some gs \<Rightarrow> paragraph_bags gs = []))"

fun promoted :: "node \<Rightarrow> bool" where
  "promoted (Node p ch) =
     (case ch of
        None \<Rightarrow> True
      | Some cs \<Rightarrow> (\<not> tight_list (Node p ch) \<or> list_all item_done cs) \<and> list_all promoted cs)"

lemma set_paragraph_bags: "set (paragraph_bags gs) = {hp. \<exists>g\<in>set gs. promotable g = Some hp}"
  by (induction gs) (auto simp: paragraph_bags_def map_filter_simps split: option.splits)

lemma paragraph_bags_Nil: "paragraph_bags gs = [] \<longleftrightarrow> (\<forall>g\<in>set gs. promotable g = None)"
  by (induction gs) (auto simp: paragraph_bags_def map_filter_simps split: option.splits)

lemma promotable_props: "props a = props b \<Longrightarrow> promotable a = promotable b"
  by (simp add: promotable_def)

lemma promotable_clear: "promotable (clear_promoted g) = None"
  by (cases "data (props g)")
    (auto simp: clear_promoted_def promotable_def delete_hProperties_def split: option.splits if_splits)

lemma promote_child_done: "item_done c \<Longrightarrow> promote_child c = Some c"
proof (cases "ntype (props c) = ''listItem''")
  case False
  then show ?thesis by (simp add: promote_child_other)
next
  case True
  assume "item_done c"
  with True obtain gs where gs: "children c = Some gs" and b: "paragraph_bags gs = []"
    by (auto simp: item_done_def split: option.splits)
  from True gs promote_grandchildren_done[OF b, of c] show ?thesis
    by (cases c) (simp add: promote_child_def)
qed

lemma promoted_identity: "promoted n \<Longrightarrow> promoteTightListAttributes n = Some n"
proof (induction n rule: promoteTightListAttributes.induct)
  case (1 node)
  show ?case
  proof (cases "children node")
    case None
    then show ?thesis by (simp add: promoteTightListAttributes.simps[of node])
  next
    case (Some cs)
    let ?tight = "ntype (props node) = ''list'' \<and> spread (props node) \<noteq> Some True"
    from "1.prems" Some have pr: "list_all promoted cs"
      and items: "?tight \<Longrightarrow> list_all item_done cs"
      by (cases node; simp add: tight_list_def)+
    have cs1: "(if ?tight then those (map promote_child cs) else Some cs) = Some cs"
      using items promote_child_done by (auto intro!: those_map_id simp: list_all_iff)
    have "those (map promoteTightListAttributes cs) = Some cs"
      using "1.IH"[OF Some cs1] pr by (intro those_map_id) (simp add: list_all_iff)
    with Some cs1 show ?thesis
      by (cases node) (simp add: promoteTightListAttributes.simps)
  qed
qed

lemma promote_establishes: "promoteTightListAttributes n = Some n' \<Longrightarrow> promoted n'"
proof (induction n arbitrary: n' rule: promoteTightListAttributes.induct)
  case (1 node)
  show ?case
  proof (cases "children node")
    case None
    with "1.prems" have "n' = node" by (simp add: promoteTightListAttributes.simps[of node])
    with None show ?thesis by (cases node) simp
  next
    case (Some cs)
    let ?tight = "ntype (props node) = ''list'' \<and> spread (props node) \<noteq> Some True"
    from "1.prems"(1) Some obtain cs1 cs' where
      1: "(if ?tight then those (map promote_child cs) else Some cs) = Some cs1"
      and 2: "those (map promoteTightListAttributes cs1) = Some cs'"
      and n': "n' = Node (props node) (Some cs')"
      by (auto simp: promoteTightListAttributes.simps[of node] split: bind_splits)
    from 2 have l: "length cs' = length cs1"
      and each: "\<forall>i<length cs1. promoteTightListAttributes (cs1 ! i) = Some (cs' ! i)"
      by (simp_all add: those_map_Some)
    have pr: "promoted (cs' ! i)" if i: "i < length cs1" for i
    proof -
      from i have "cs1 ! i \<in> set cs1" by simp
      from "1.IH"[OF Some 1 this] each i show ?thesis by simp
    qed
    have idone: "item_done (cs' ! i)" if t: ?tight and i: "i < length cs1" for i
    proof (cases "ntype (props (cs' ! i)) = ''listItem''")
      case False
      then show ?thesis by (simp add: item_done_def)
    next
      case True
      from each i have p: "promoteTightListAttributes (cs1 ! i) = Some (cs' ! i)" by simp
      from promote_props[OF p] True have li1: "ntype (props (cs1 ! i)) = ''listItem''" by simp
      from t 1 have l1: "length cs1 = length cs" and pc: "\<forall>j<length cs. promote_child (cs ! j) = Some (cs1 ! j)"
        by (simp_all add: those_map_Some)
      from pc i l1 have pci: "promote_child (cs ! i) = Some (cs1 ! i)" by simp
      have "ntype (props (cs ! i)) = ''listItem''"
      proof (rule ccontr)
        assume "ntype (props (cs ! i)) \<noteq> ''listItem''"
        with pci have "cs1 ! i = cs ! i" by (simp add: promote_child_other)
        with li1 \<open>ntype (props (cs ! i)) \<noteq> ''listItem''\<close> show False by simp
      qed
      note li = this
      from promote_child_item[OF pci li] obtain gs item' where gs: "children (cs ! i) = Some gs"
        and c1: "cs1 ! i = Node (props item') (Some (map clear_promoted gs))"
        by blast
      from li1 have nt: "\<not> tight_list (cs1 ! i)" by (simp add: tight_list_def)
      from c1 have k1: "children (cs1 ! i) = Some (map clear_promoted gs)" by simp
      from promote_level[OF p k1] nt obtain gs1 gs' where
        g': "children (cs' ! i) = Some gs'" and lg: "length gs' = length gs"
        and eachg: "\<forall>j<length gs. props (gs' ! j) = props (gs1 ! j)
                       \<and> gs1 ! j = clear_promoted (gs ! j)"
        by auto
      have "promotable (gs' ! j) = None" if "j < length gs" for j
      proof -
        from eachg that have "props (gs' ! j) = props (clear_promoted (gs ! j))" by simp
        from promotable_props[OF this] show ?thesis by (simp add: promotable_clear)
      qed
      with lg have "paragraph_bags gs' = []"
        by (auto simp: paragraph_bags_Nil in_set_conv_nth)
      with g' show ?thesis by (simp add: item_done_def)
    qed
    from pr idone l n' show ?thesis
      by (auto simp: tight_list_def list_all_length)
  qed
qed

lemma promotion_safe_well_formed: "every_node {} well_formed n \<Longrightarrow> promotion_safe n"
proof (induction n)
  case (Node p ch)
  show ?case
  proof (cases ch)
    case None
    then show ?thesis by simp
  next
    case (Some cs)
    with Node.prems have all: "list_all (every_node {} well_formed) cs" by simp
    with Node.IH Some have ps: "list_all promotion_safe cs" by (auto simp: list_all_iff)
    have "item_safe c" if c: "c \<in> set cs" for c
    proof (cases "ntype (props c) = ''listItem''")
      case False
      then show ?thesis by (simp add: item_safe_def)
    next
      case True
      from all c have w: "every_node {} well_formed c" by (simp add: list_all_iff)
      then have "well_formed (props c) (count c)" and k: "every_child {} well_formed c"
        by (simp_all only: every_node_iff) simp_all
      with True obtain gs where gs: "children c = Some gs"
        by (auto simp: well_formed_def count_def)
      have "class_is_string hp" if "hp \<in> set (paragraph_bags gs)" for hp
      proof -
        from that obtain g where g: "g \<in> set gs" and pg: "promotable g = Some hp"
          by (auto simp: set_paragraph_bags)
        from k gs g have "every_node {} well_formed g" by (simp add: every_child_def list_all_iff)
        then have "well_formed (props g) (count g)" by (simp only: every_node_iff)
        with pg show ?thesis
          by (auto simp: well_formed_def promotable_def split: if_splits option.splits)
      qed
      with True gs show ?thesis by (simp add: item_safe_def list_all_iff)
    qed
    with ps Some show ?thesis by (simp add: list_all_iff)
  qed
qed


section \<open>No fragment survives, and the transform is idempotent\<close>



lemma transform_steps:
  assumes "attributesTransform t = Some t'"
  obtains t1 t2 t3 t4 t5 where
    "processCodeBlocks t = Some t1" "processThematicBreaksInParent t1 = Some t2"
    "processStandaloneInParent t2 = Some t3" "processTrailingInParent t3 = Some t4"
    "processNode t4 = Some t5" "promoteTightListAttributes t5 = Some t'"
  using assms by (auto simp: attributesTransform_def split: bind_splits)


lemma transform_fragment_free_children:
  assumes "attributesTransform t = Some t'"
  shows "every_child {} not_fragment t'"
proof -
  from assms obtain t1 t2 t3 t4 t5 where
    s: "processCodeBlocks t = Some t1" "processThematicBreaksInParent t1 = Some t2"
    "processStandaloneInParent t2 = Some t3" "processTrailingInParent t3 = Some t4"
    "processNode t4 = Some t5" "promoteTightListAttributes t5 = Some t'"
    by (rule transform_steps)
  from processNode_establishes(1)[OF s(5)] have "every_child {} not_fragment t5" .
  from promote_every[OF not_fragment_blind s(6) this] show ?thesis .
qed

lemma transform_total:
  assumes "every_node {} well_formed t"
  shows "attributesTransform t \<noteq> None"
proof -
  note st = well_formed_stable
  have mono: "every_child {} paragraph_has_children n" if "every_node {} well_formed n" for n
  proof -
    have "every_node {} paragraph_has_children n"
      by (rule every_node_mono[OF _ that]) (auto simp: well_formed_def paragraph_has_children_def)
    then show ?thesis by (rule every_node_child)
  qed
  obtain t1 where 1: "processCodeBlocks t = Some t1" using code_total[of t] by auto
  from code_well_formed[OF 1 assms] have w1: "every_node {} well_formed t1" .
  obtain t2 where 2: "processThematicBreaksInParent t1 = Some t2" using thematic_total[of t1] by auto
  from thematic_every_node[OF st 2 w1] have w2: "every_node {} well_formed t2" .
  obtain t3 where 3: "processStandaloneInParent t2 = Some t3"
    using standalone_total(1)[OF mono[OF w2]] by auto
  from standalone_every_node[OF st 3 w2] have w3: "every_node {} well_formed t3" .
  obtain t4 where 4: "processTrailingInParent t3 = Some t4"
    using trailing_total(1)[OF mono[OF w3]] by auto
  from trailing_every_node[OF st 4 w3] have w4: "every_node {} well_formed t4" .
  obtain t5 where 5: "processNode t4 = Some t5" using processNode_total(1)[of t4] by auto
  from processNode_every_node[OF st 5 w4] have w5: "every_node {} well_formed t5" .
  from promote_total[OF promotion_safe_well_formed[OF w5]] 1 2 3 4 5 show ?thesis
    by (simp add: attributesTransform_def)
qed

lemma transform_settled:
  assumes "attributesTransform t = Some t'"
  shows "every_node {''code''} no_side_channel t'"
    and "every_child {} flat_break t'"
    and "every_child {} paragraph_has_children t'"
    and "every_child {} not_fragment t'"
    and "promoted t'"
proof -
  from assms obtain t1 t2 t3 t4 t5 where
    s: "processCodeBlocks t = Some t1" "processThematicBreaksInParent t1 = Some t2"
    "processStandaloneInParent t2 = Some t3" "processTrailingInParent t3 = Some t4"
    "processNode t4 = Some t5" "promoteTightListAttributes t5 = Some t'"
    by (rule transform_steps)
  note c = no_side_channel_stable
  from code_establishes[OF s(1)] have "every_node {''code''} no_side_channel t1" .
  from thematic_every_node[OF c s(2) this] have "every_node {''code''} no_side_channel t2" .
  from standalone_every_node[OF c s(3) this] have "every_node {''code''} no_side_channel t3" .
  from trailing_every_node[OF c s(4) this] have "every_node {''code''} no_side_channel t4" .
  from processNode_every_node[OF c s(5) this] have "every_node {''code''} no_side_channel t5" .
  from promote_every_node[OF no_side_channel_blind s(6) this]
  show "every_node {''code''} no_side_channel t'" .
  have f: "merge_stable flat_break" "shrink_stable flat_break" "text_ok flat_break"
    using flat_break_stable by (simp_all add: stable_def)
  from thematic_establishes[OF s(2)] have "every_child {} flat_break t2" .
  from standalone_every(1)[OF f(1,2) s(3) this] have "every_child {} flat_break t3" .
  from trailing_every(1)[OF f(1,2) s(4) this] have "every_child {} flat_break t4" .
  from processNode_every(1)[OF f s(5) this] have "every_child {} flat_break t5" .
  from promote_every[OF flat_break_blind s(6) this] show "every_child {} flat_break t'" .
  have p: "merge_stable paragraph_has_children" "shrink_stable paragraph_has_children"
    "text_ok paragraph_has_children"
    using paragraph_has_children_stable by (simp_all add: stable_def)
  from standalone_establishes(1)[OF s(3)] have "every_child {} paragraph_has_children t3" .
  from trailing_every(1)[OF p(1,2) s(4) this] have "every_child {} paragraph_has_children t4" .
  from processNode_every(1)[OF p s(5) this] have "every_child {} paragraph_has_children t5" .
  from promote_every[OF paragraph_has_children_blind s(6) this]
  show "every_child {} paragraph_has_children t'" .
  from assms show "every_child {} not_fragment t'" by (rule transform_fragment_free_children)
  from promote_establishes[OF s(6)] show "promoted t'" .
qed

lemma settled_fixed:
  assumes "every_node {''code''} no_side_channel t" "every_child {} flat_break t"
    "every_child {} paragraph_has_children t" "every_child {} not_fragment t" "promoted t"
  shows "processCodeBlocks t = Some t" "processThematicBreaksInParent t = Some t"
    "processStandaloneInParent t = Some t" "processTrailingInParent t = Some t"
    "processNode t = Some t" "promoteTightListAttributes t = Some t"
  using assms code_identity thematic_identity standalone_identity(1) trailing_identity(1)
    processNode_identity(1) promoted_identity
  by blast+

text \<open>
  A document with a fenced block carrying a side-channel map, a thematic break with a
  fragment child, a standalone attribute paragraph right before a heading, a paragraph
  with a fragment behind an emphasis, one between two texts and one at its end, and a
  tight list whose item ends with a fragment; and what the transform returns for it.
\<close>

definition ex_text :: "string \<Rightarrow> position option \<Rightarrow> node" where
  "ex_text s pos = Node ((bare ''text'')\<lparr>nvalue := Some s, position := pos\<rparr>) None"

definition ex_doc :: node where
  "ex_doc = Node (bare ''root'')
     (Some [
        Node ((bare ''code'')\<lparr>lang := Some ''js'', nvalue := Some ''x'', position := span 1 0 3 20,
               data := Some \<lparr>hProperties = None, mdastAttributes = Some [(''class'', ''highlight'')]\<rparr>\<rparr>) None,
        Node ((bare ''thematicBreak'')\<lparr>position := span 5 22 6 30\<rparr>)
          (Some [frag [(''id'', ''a'')] ''{#a}'' (span 5 22 5 26)]),
        Node ((bare ''paragraph'')\<lparr>position := span 8 32 8 36\<rparr>)
          (Some [frag [(''id'', ''h'')] ''{#h}'' (span 8 32 8 36)]),
        Node ((bare ''heading'')\<lparr>position := span 9 37 9 40\<rparr>) (Some [ex_text ''H'' (span 9 39 9 40)]),
        Node ((bare ''paragraph'')\<lparr>position := span 11 42 11 70\<rparr>)
          (Some [Node ((bare ''emphasis'')\<lparr>position := span 11 42 11 46\<rparr>)
                   (Some [ex_text ''em'' (span 11 43 11 45)]),
                 frag [(''class'', ''c'')] ''{.c}'' (span 11 46 11 50),
                 ex_text '' mid '' (span 11 50 11 55),
                 frag [(''class'', ''o'')] ''{.o}'' (span 11 55 11 59),
                 ex_text '' end '' (span 11 59 11 64),
                 frag [(''class'', ''p q'')] ''{.p .q}'' (span 11 64 11 70)]),
        Node ((bare ''list'')\<lparr>spread := Some False, position := span 13 72 13 85\<rparr>)
          (Some [Node ((bare ''listItem'')\<lparr>position := span 13 72 13 85\<rparr>)
                   (Some [Node ((bare ''paragraph'')\<lparr>position := span 13 74 13 85\<rparr>)
                            (Some [ex_text ''bar '' (span 13 74 13 78),
                                   frag [(''class'', ''red'')] ''{.red}'' (span 13 78 13 85)])])])])"

definition ex_out :: node where
  "ex_out = Node (bare ''root'')
     (Some [
        Node ((bare ''code'')\<lparr>lang := Some ''js'', nvalue := Some ''x'', position := span 1 0 3 20,
               data := Some \<lparr>hProperties = Some [(''className'', Toks [''language-js'', ''highlight''])],
                             mdastAttributes = None\<rparr>\<rparr>) None,
        bagged [(''id'', Str ''a'')] (Node ((bare ''thematicBreak'')\<lparr>position := span 5 22 6 30\<rparr>) None),
        bagged [(''id'', Str ''h'')]
          (Node ((bare ''heading'')\<lparr>position := span 9 37 9 40\<rparr>) (Some [ex_text ''H'' (span 9 39 9 40)])),
        bagged [(''className'', Toks [''p'', ''q''])]
          (Node ((bare ''paragraph'')\<lparr>position := span 11 42 11 70\<rparr>)
            (Some [bagged [(''className'', Toks [''c''])]
                     (Node ((bare ''emphasis'')\<lparr>position := span 11 42 11 46\<rparr>)
                        (Some [ex_text ''em'' (span 11 43 11 45)])),
                   ex_text '' mid '' (span 11 50 11 55),
                   ex_text ''{.o}'' (span 11 55 11 59),
                   ex_text '' end '' (span 11 59 11 64)])),
        Node ((bare ''list'')\<lparr>spread := Some False, position := span 13 72 13 85\<rparr>)
          (Some [bagged [(''className'', Toks [''red''])]
                   (Node ((bare ''listItem'')\<lparr>position := span 13 72 13 85\<rparr>)
                      (Some [Node ((bare ''paragraph'')\<lparr>position := span 13 74 13 85,
                                      data := Some empty_data\<rparr>)
                               (Some [ex_text ''bar '' (span 13 74 13 78)])]))])])"













text \<open>
  C9. The transform returns on every well-formed tree; and whenever it returns, each of
  its six passes returns its result unchanged, so a second run of the transform returns
  the result of the first.
\<close>

theorem transform_idempotent:
  "(every_node {} well_formed t \<longrightarrow> attributesTransform t \<noteq> None)
   \<and> (\<forall>t'. attributesTransform t = Some t' \<longrightarrow>
         processCodeBlocks t' = Some t' \<and> processThematicBreaksInParent t' = Some t'
         \<and> processStandaloneInParent t' = Some t' \<and> processTrailingInParent t' = Some t'
         \<and> processNode t' = Some t' \<and> promoteTightListAttributes t' = Some t'
         \<and> attributesTransform t' = Some t')"
proof (intro conjI impI allI)
  assume "every_node {} well_formed t"
  then show "attributesTransform t \<noteq> None" by (rule transform_total)
next
  fix t' assume a: "attributesTransform t = Some t'"
  note fx = settled_fixed[OF transform_settled[OF a]]
  show "processCodeBlocks t' = Some t'" by (rule fx)
  show "processThematicBreaksInParent t' = Some t'" by (rule fx)
  show "processStandaloneInParent t' = Some t'" by (rule fx)
  show "processTrailingInParent t' = Some t'" by (rule fx)
  show "processNode t' = Some t'" by (rule fx)
  show "promoteTightListAttributes t' = Some t'" by (rule fx)
  from fx show "attributesTransform t' = Some t'" by (simp add: attributesTransform_def)
qed

theorem transform_idempotent_witness:
  "every_node {} well_formed ex_doc \<and> attributesTransform ex_doc = Some ex_out
   \<and> attributesTransform ex_out = Some ex_out"
proof -
  have w: "every_node {} well_formed ex_doc" by code_simp
  have e: "attributesTransform ex_doc = Some ex_out" by code_simp
  from transform_idempotent[of ex_doc] e have "attributesTransform ex_out = Some ex_out" by blast
  with w e show ?thesis by simp
qed


section \<open>Attributes lost between consecutive standalone paragraphs\<close>

text \<open>
  C10. For the children \<open>[P1, P2, B]\<close>, two standalone attribute paragraphs each on the
  line before its successor, followed by a heading: the forward pass merges the attributes
  of P1's fragment into P2's bag and removes P1; it then finds P2 standalone and adjacent
  to B, merges the attributes of P2's fragment into B and removes P2 with the bag it had
  just received. The transform returns the root with B alone, whose bag holds the class of
  P2's fragment only: the \<^verbatim>\<open>id\<close> of P1's fragment is in no bag and in no text node.
\<close>

theorem consecutive_standalone_paragraphs_lose_attributes:
  "standalone_loop [ex_P1, ex_P2, ex_B] = standalone_loop [bagged [(''id'', Str ''a'')] ex_P2, ex_B]
   \<and> standalone_loop [bagged [(''id'', Str ''a'')] ex_P2, ex_B]
       = standalone_loop [bagged [(''className'', Toks [''b''])] ex_B]
   \<and> attributesTransform (Node (bare ''root'') (Some [ex_P1, ex_P2, ex_B]))
       = Some (Node (bare ''root'') (Some [bagged [(''className'', Toks [''b''])] ex_B]))"
  by code_simp


section \<open>The language class after the transform\<close>

text \<open>
  A node with the property \<open>Q\<close> occurs in a tree: at the root, or below it behind ancestors
  whose types are all outside the set \<open>S\<close>.
\<close>

fun somewhere :: "string set \<Rightarrow> (props \<Rightarrow> bool) \<Rightarrow> node \<Rightarrow> bool" where
  "somewhere S Q (Node p ch) =
     (Q p \<or> (ntype p \<notin> S \<and> (case ch of None \<Rightarrow> False | Some cs \<Rightarrow> list_ex (somewhere S Q) cs)))"

text \<open>Such a node occurs in one of the children.\<close>

definition some_child :: "string set \<Rightarrow> (props \<Rightarrow> bool) \<Rightarrow> node \<Rightarrow> bool" where
  "some_child S Q n = (case children n of None \<Rightarrow> False | Some cs \<Rightarrow> list_ex (somewhere S Q) cs)"

lemma somewhere_iff:
  "somewhere S Q n \<longleftrightarrow> Q (props n) \<or> (ntype (props n) \<notin> S \<and> some_child S Q n)"
  by (cases n) (simp add: some_child_def)

text \<open>A property of \<^verbatim>\<open>code\<close> nodes only.\<close>

definition code_only :: "(props \<Rightarrow> bool) \<Rightarrow> bool" where
  "code_only Q \<longleftrightarrow> (\<forall>p. Q p \<longrightarrow> ntype p = ''code'')"

text \<open>A fragment has no attribute named \<^verbatim>\<open>className\<close>.\<close>

definition no_className_attribute :: "props \<Rightarrow> nat option \<Rightarrow> bool" where
  "no_className_attribute p k =
     (ntype p \<noteq> ''mdastAttributes'' \<or> ''className'' \<notin> fst ` set (attributes p))"

text \<open>A property that a merge of attributes without a \<^verbatim>\<open>className\<close> key keeps.\<close>

definition merge_keeps :: "(props \<Rightarrow> bool) \<Rightarrow> bool" where
  "merge_keeps Q \<longleftrightarrow>
     (\<forall>n b n'. Q (props n) \<longrightarrow> ''className'' \<notin> fst ` set b \<longrightarrow>
        mergeAttributesToNode n (str_attrs b) = Some n' \<longrightarrow> Q (props n'))"

lemma somewhere_same:
  assumes "somewhere S Q n" "Q (props n) \<longrightarrow> Q (props n')" "ntype (props n') = ntype (props n)"
    "children n' = children n"
  shows "somewhere S Q n'"
  using assms by (auto simp: somewhere_iff some_child_def)

lemma somewhere_not:
  assumes "code_only Q" "ntype (props n) \<noteq> ''code''" "ntype (props n) \<in> S"
  shows "\<not> somewhere S Q n"
  using assms by (auto simp: somewhere_iff code_only_def)

lemma somewhere_merge:
  assumes "merge_keeps Q" "''className'' \<notin> fst ` set b" "somewhere S Q n"
    "mergeAttributesToNode n (str_attrs b) = Some n'"
  shows "somewhere S Q n'"
proof (rule somewhere_same[OF assms(3)])
  show "Q (props n) \<longrightarrow> Q (props n')" using assms(1,2,4) unfolding merge_keeps_def by blast
  show "ntype (props n') = ntype (props n)" using assms(4) by (rule mergeAttributesToNode_frame)
  show "children n' = children n" using assms(4) by (rule mergeAttributesToNode_children)
qed

text \<open>Merging into a node that is no code node.\<close>

lemma somewhere_merge_other:
  assumes "code_only Q" "ntype (props n) \<noteq> ''code''" "somewhere S Q n"
    "mergeAttributesToNode n b = Some n'"
  shows "somewhere S Q n'"
proof (rule somewhere_same[OF assms(3)])
  show "Q (props n) \<longrightarrow> Q (props n')" using assms(1,2) by (auto simp: code_only_def)
  show "ntype (props n') = ntype (props n)" using assms(4) by (rule mergeAttributesToNode_frame)
  show "children n' = children n" using assms(4) by (rule mergeAttributesToNode_children)
qed

lemma list_ex_nth: "list_ex P xs \<longleftrightarrow> (\<exists>i<length xs. P (xs ! i))"
  by (rule list_ex_length)

lemma list_ex_pointwise:
  assumes "list_ex P xs" "length ys = length xs" "\<forall>i<length xs. P (xs ! i) \<longrightarrow> P' (ys ! i)"
  shows "list_ex P' ys"
  using assms by (auto simp: list_ex_nth)

subsection \<open>The code-block pass\<close>

lemma code_somewhere:
  assumes step: "\<And>p ch n1. Q p \<Longrightarrow> processCodeBlocks (Node p ch) = Some n1 \<Longrightarrow> Q' (props n1)"
    and co: "code_only Q" and S: "''code'' \<in> S"
  shows "processCodeBlocks n = Some n' \<Longrightarrow> somewhere S Q n \<Longrightarrow> somewhere S Q' n'"
proof (induction n arbitrary: n' rule: processCodeBlocks.induct)
  case (1 p ch)
  show ?case
  proof (cases "Q p")
    case True
    from step[OF True "1.prems"(1)] show ?thesis by (simp add: somewhere_iff)
  next
    case False
    with "1.prems"(2) have nS: "ntype p \<notin> S" and sc: "some_child S Q (Node p ch)"
      by (simp_all add: somewhere_iff)
    with S have nc: "ntype p \<noteq> ''code''" by auto
    from sc obtain cs where ch: "ch = Some cs" and ex: "list_ex (somewhere S Q) cs"
      by (auto simp: some_child_def split: option.splits)
    with nc "1.prems"(1) obtain cs' where t: "those (map processCodeBlocks cs) = Some cs'"
      and n': "n' = Node p (Some cs')"
      by (auto split: bind_splits)
    from t have l: "length cs' = length cs"
      and each: "\<forall>i<length cs. processCodeBlocks (cs ! i) = Some (cs' ! i)"
      by (simp_all add: those_map_Some)
    have "\<forall>i<length cs. somewhere S Q (cs ! i) \<longrightarrow> somewhere S Q' (cs' ! i)"
      using "1.IH"[OF nc ch] each by (metis nth_mem)
    from list_ex_pointwise[OF ex l this] n' nS show ?thesis by simp
  qed
qed

subsection \<open>The thematic-break pass\<close>

lemma thematic_somewhere:
  assumes co: "code_only Q" and S: "''thematicBreak'' \<in> S"
  shows "processThematicBreaksInParent n = Some n' \<Longrightarrow> somewhere S Q n \<Longrightarrow> somewhere S Q n'"
proof (induction n arbitrary: n' rule: processThematicBreaksInParent.induct)
  case (1 parent)
  show ?case
  proof (cases "children parent")
    case None
    with "1.prems" show ?thesis by (simp add: thematic_unfold[of parent])
  next
    case (Some cs)
    with "1.prems"(1) obtain cs' where t: "those (map thematic_step cs) = Some cs'"
      and n': "n' = Node (props parent) (Some cs')"
      by (auto simp: thematic_unfold[of parent] split: bind_splits)
    from t have l: "length cs' = length cs" and each: "\<forall>i<length cs. thematic_step (cs ! i) = Some (cs' ! i)"
      by (simp_all add: those_map_Some)
    have pt: "somewhere S Q (cs' ! i)" if i: "i < length cs" and w: "somewhere S Q (cs ! i)" for i
    proof -
      from each i obtain c1 where f: "flattenThematicBreak (cs ! i) = Some c1"
        and r: "(if children c1 \<noteq> None then processThematicBreaksInParent c1 else Some c1) = Some (cs' ! i)"
        by (auto simp: thematic_step_def split: bind_splits)
      from somewhere_not[OF co _ _, of "cs ! i" S] w S
      have "ntype (props (cs ! i)) \<noteq> ''thematicBreak''" by auto
      with f have c1: "c1 = cs ! i" by (simp add: flattenThematicBreak_def)
      show ?thesis
      proof (cases "children c1 \<noteq> None")
        case True
        with r have p: "processThematicBreaksInParent c1 = Some (cs' ! i)" by simp
        from i have "cs ! i \<in> set cs" by simp
        from "1.IH"[OF Some this f True p] w c1 show ?thesis by simp
      next
        case False
        with r w c1 show ?thesis by simp
      qed
    qed
    show ?thesis
    proof (cases "Q (props parent)")
      case True
      with n' show ?thesis by (simp add: somewhere_iff)
    next
      case False
      with "1.prems"(2) Some have nS: "ntype (props parent) \<notin> S" and ex: "list_ex (somewhere S Q) cs"
        by (simp_all add: somewhere_iff some_child_def)
      from pt have "\<forall>i<length cs. somewhere S Q (cs ! i) \<longrightarrow> somewhere S Q (cs' ! i)" by simp
      from list_ex_pointwise[OF ex l this] n' nS show ?thesis by simp
    qed
  qed
qed

subsection \<open>The tight-list pass\<close>

lemma somewhere_clear:
  assumes "code_only Q" "somewhere S Q g"
  shows "somewhere S Q (clear_promoted g)"
proof (cases "promotable g")
  case None
  with assms(2) show ?thesis by (simp add: clear_promoted_def)
next
  case (Some hp)
  then have "ntype (props g) = ''paragraph''" by (auto simp: promotable_def split: if_splits)
  with assms(1) have "\<not> Q (props g)" by (auto simp: code_only_def)
  with assms(2) clear_promoted_side[of g] show ?thesis
    by (auto simp: somewhere_iff some_child_def)
qed

lemma promote_child_somewhere:
  assumes "code_only Q" "somewhere S Q c" "promote_child c = Some c'"
  shows "somewhere S Q c'"
proof (cases "ntype (props c) = ''listItem''")
  case False
  with assms show ?thesis by (simp add: promote_child_other)
next
  case True
  from promote_child_item[OF assms(3) True] obtain gs item' where gs: "children c = Some gs"
    and m: "promote_grandchildren c gs = Some (item', map clear_promoted gs)"
    and c': "c' = Node (props item') (Some (map clear_promoted gs))"
    by blast
  from True assms(1) have nq: "\<not> Q (props c)" by (auto simp: code_only_def)
  with assms(2) gs have nS: "ntype (props c) \<notin> S" and ex: "list_ex (somewhere S Q) gs"
    by (simp_all add: somewhere_iff some_child_def)
  from ex somewhere_clear[OF assms(1)] have "list_ex (somewhere S Q) (map clear_promoted gs)"
    by (auto simp: list_ex_iff)
  with nS c' promote_grandchildren_side[OF m] show ?thesis by simp
qed

lemma promote_somewhere:
  assumes co: "code_only Q"
  shows "promoteTightListAttributes n = Some n' \<Longrightarrow> somewhere S Q n \<Longrightarrow> somewhere S Q n'"
proof (induction n arbitrary: n' rule: promoteTightListAttributes.induct)
  case (1 node)
  show ?case
  proof (cases "children node")
    case None
    with "1.prems" show ?thesis by (simp add: promoteTightListAttributes.simps[of node])
  next
    case (Some cs)
    let ?tight = "ntype (props node) = ''list'' \<and> spread (props node) \<noteq> Some True"
    from "1.prems"(1) Some obtain cs1 cs' where
      1: "(if ?tight then those (map promote_child cs) else Some cs) = Some cs1"
      and 2: "those (map promoteTightListAttributes cs1) = Some cs'"
      and n': "n' = Node (props node) (Some cs')"
      by (auto simp: promoteTightListAttributes.simps[of node] split: bind_splits)
    from 2 have l: "length cs' = length cs1"
      and each: "\<forall>i<length cs1. promoteTightListAttributes (cs1 ! i) = Some (cs' ! i)"
      by (simp_all add: those_map_Some)
    show ?thesis
    proof (cases "Q (props node)")
      case True
      with n' show ?thesis by (simp add: somewhere_iff)
    next
      case False
      with "1.prems"(2) Some have nS: "ntype (props node) \<notin> S" and ex: "list_ex (somewhere S Q) cs"
        by (simp_all add: somewhere_iff some_child_def)
      have ex1: "list_ex (somewhere S Q) cs1"
      proof (cases ?tight)
        case True
        with 1 have l1: "length cs1 = length cs" and "\<forall>i<length cs. promote_child (cs ! i) = Some (cs1 ! i)"
          by (simp_all add: those_map_Some)
        with promote_child_somewhere[OF co]
        have "\<forall>i<length cs. somewhere S Q (cs ! i) \<longrightarrow> somewhere S Q (cs1 ! i)" by blast
        from list_ex_pointwise[OF ex l1 this] show ?thesis .
      next
        case False
        with 1 ex show ?thesis by simp
      qed
      have "\<forall>i<length cs1. somewhere S Q (cs1 ! i) \<longrightarrow> somewhere S Q (cs' ! i)"
      proof (intro allI impI)
        fix i assume i: "i < length cs1" and w: "somewhere S Q (cs1 ! i)"
        from each i have p: "promoteTightListAttributes (cs1 ! i) = Some (cs' ! i)" by simp
        from i have "cs1 ! i \<in> set cs1" by simp
        from "1.IH"[OF Some 1 this p w] show "somewhere S Q (cs' ! i)" .
      qed
      from list_ex_pointwise[OF ex1 l this] n' nS show ?thesis by simp
    qed
  qed
qed

subsection \<open>Fragments and standalone paragraphs\<close>

lemma list_ex_splice1:
  assumes "list_ex P xs" "i < length xs" "\<not> P (xs ! i)"
  shows "list_ex P (splice1 i xs)"
proof -
  from assms(1) obtain j where j: "j < length xs" "P (xs ! j)" by (auto simp: list_ex_nth)
  with assms(3) have ne: "j \<noteq> i" by auto
  show ?thesis
  proof (cases "j < i")
    case True
    with j assms(2) have "xs ! j \<in> set (take i xs)" by (auto simp: in_set_conv_nth)
    with j show ?thesis by (auto simp: splice1_def list_ex_iff)
  next
    case False
    with ne have "Suc i \<le> j" by simp
    with j have "drop (Suc i) xs ! (j - Suc i) = xs ! j" "j - Suc i < length (drop (Suc i) xs)"
      by simp_all
    then have "xs ! j \<in> set (drop (Suc i) xs)" using nth_mem[of "j - Suc i" "drop (Suc i) xs"] by simp
    with j show ?thesis by (auto simp: splice1_def list_ex_iff)
  qed
qed

lemma list_ex_update_at:
  assumes "list_ex P xs" "P (xs ! j) \<longrightarrow> P y"
  shows "list_ex P (xs[j := y])"
proof -
  from assms(1) obtain k where k: "k < length xs" "P (xs ! k)" by (auto simp: list_ex_nth)
  with assms(2) have "P ((xs[j := y]) ! k)" by (cases "k = j") auto
  with k show ?thesis by (auto simp: list_ex_nth)
qed

lemma no_className_attribute_stable: "stable no_className_attribute"
proof -
  have "merge_stable no_className_attribute"
    unfolding merge_stable_def
  proof (intro allI impI)
    fix n b n' k
    assume a: "no_className_attribute (props n) k" and m: "mergeAttributesToNode n (str_attrs b) = Some n'"
    from mergeAttributesToNode_frame(1,4)[OF m] a show "no_className_attribute (props n') k"
      by (simp add: no_className_attribute_def)
  qed
  moreover have "shrink_stable no_className_attribute" "flat_stable no_className_attribute"
    by (simp_all add: shrink_stable_def flat_stable_def no_className_attribute_def)
  moreover have "text_ok no_className_attribute"
    by (simp add: text_ok_def no_className_attribute_def textNode_def)
  ultimately show ?thesis by (simp add: stable_def)
qed

lemma sp_unfold:
  "getStandaloneAttributesFromParagraph c = Some (Some f) \<longleftrightarrow>
     ntype (props c) = ''paragraph'' \<and> (\<exists>cs. children c = Some cs \<and> length cs = 1
        \<and> ntype (props (cs ! 0)) = ''mdastAttributes'' \<and> f = cs ! 0)"
  unfolding getStandaloneAttributesFromParagraph_def
  by (cases "children c") (auto simp del: One_nat_def)

lemma standalone_paragraph:
  assumes "getStandaloneAttributesFromParagraph c = Some (Some f)"
  shows "ntype (props c) = ''paragraph''" "children c = Some [f]" "ntype (props f) = ''mdastAttributes''"
proof -
  from assms obtain cs where t: "ntype (props c) = ''paragraph''" and cs: "children c = Some cs"
    and l: "length cs = 1" and ft: "ntype (props (cs ! 0)) = ''mdastAttributes''" and f: "f = cs ! 0"
    unfolding sp_unfold by blast
  from l obtain x where x: "cs = [x]" by (cases cs) auto
  with f have "cs = [f]" by simp
  with t cs ft f x show "ntype (props c) = ''paragraph''" "children c = Some [f]" "ntype (props f) = ''mdastAttributes''"
    by simp_all
qed

lemma standalone_paragraph_nowhere:
  assumes "code_only Q" "''mdastAttributes'' \<in> S" "getStandaloneAttributesFromParagraph c = Some (Some f)"
  shows "\<not> somewhere S Q c"
proof -
  note sp = standalone_paragraph[OF assms(3)]
  from assms(1) sp(3) have "\<not> Q (props f)" by (auto simp: code_only_def)
  with assms(2) sp(3) have "\<not> somewhere S Q f" by (simp add: somewhere_iff)
  moreover from assms(1) sp(1) have "\<not> Q (props c)" by (auto simp: code_only_def)
  ultimately show ?thesis using sp(2) by (simp add: somewhere_iff some_child_def)
qed

lemma standalone_paragraph_attrs:
  assumes "every_node {} no_className_attribute c" "getStandaloneAttributesFromParagraph c = Some (Some f)"
  shows "''className'' \<notin> fst ` set (attributes (props f))"
proof -
  note sp = standalone_paragraph[OF assms(2)]
  from assms(1) sp(2) have "every_node {} no_className_attribute f"
    by (simp add: every_node_iff every_child_def)
  then have "no_className_attribute (props f) (count f)" by (simp only: every_node_iff)
  with sp(3) show ?thesis by (simp add: no_className_attribute_def)
qed

subsection \<open>The trailing pass\<close>

lemma trailing_somewhere:
  assumes co: "code_only Q" and S: "''mdastAttributes'' \<in> S"
  shows "processTrailingInParent n = Some n' \<Longrightarrow> somewhere S Q n \<Longrightarrow> somewhere S Q n'"
    and "trailing_loop prev rest = Some cs' \<Longrightarrow> list_ex (somewhere S Q) (prev # rest) \<Longrightarrow>
           list_ex (somewhere S Q) cs'"
proof (induction n and prev rest arbitrary: n' and cs' rule: processTrailingInParent_trailing_loop.induct)
  case (1 parent)
  show ?case
  proof (cases "Q (props parent)")
    case True
    with trailing_root(1)[OF "1.prems"(1)] show ?thesis by (simp add: somewhere_iff)
  next
    case False
    with "1.prems"(2) obtain cs where Some: "children parent = Some cs"
      and nS: "ntype (props parent) \<notin> S" and ex: "list_ex (somewhere S Q) cs"
      by (auto simp: somewhere_iff some_child_def split: option.splits)
    from ex obtain first rest where Cons: "cs = first # rest" by (cases cs) auto
    with Some "1.prems"(1) obtain cs' where l: "trailing_loop first rest = Some cs'"
      and n': "n' = Node (props parent) (Some cs')"
      by (auto simp: processTrailingInParent.simps[of parent] split: bind_splits)
    from "1.IH"[OF Some Cons l] ex Cons have "list_ex (somewhere S Q) cs'" by simp
    with n' nS show ?thesis by simp
  qed
next
  case (2 prev)
  then show ?case by auto
next
  case (3 prev child rest)
  from "3.prems"(1) obtain sa where
    g: "(if ntype (props prev) = ''thematicBreak'' then getStandaloneAttributesFromParagraph child
         else Some None) = Some sa"
    by (auto split: bind_splits)
  show ?case
  proof (cases "sa \<noteq> None \<and> areDirectlyAdjacent prev child")
    case True
    with "3.prems"(1) g obtain prev' where
      m: "mergeAttributesToNode prev (str_attrs (attributes (props (the sa)))) = Some prev'"
      and l: "trailing_loop prev' rest = Some cs'"
      by (auto split: bind_splits)
    from True g obtain f where tb: "ntype (props prev) = ''thematicBreak''"
      and gs: "getStandaloneAttributesFromParagraph child = Some (Some f)"
      by (auto split: if_splits)
    from standalone_paragraph_nowhere[OF co S gs] have nc: "\<not> somewhere S Q child" .
    from tb have "ntype (props prev) \<noteq> ''code''" by simp
    from somewhere_merge_other[OF co this _ m] have "somewhere S Q prev \<Longrightarrow> somewhere S Q prev'" .
    with "3.prems"(2) nc have "list_ex (somewhere S Q) (prev' # rest)" by auto
    from "3.IH"(1)[OF g True m l this] show ?thesis .
  next
    case False
    with "3.prems"(1) g obtain child' cs1 where
      c: "(if children child \<noteq> None then processTrailingInParent child else Some child) = Some child'"
      and l: "trailing_loop child' rest = Some cs1" and cs': "cs' = prev # cs1"
      by (auto split: bind_splits)
    have cw: "somewhere S Q child'" if "somewhere S Q child"
    proof (cases "children child \<noteq> None")
      case True
      with c have p: "processTrailingInParent child = Some child'" by simp
      from "3.IH"(2)[OF g False True p that] show ?thesis .
    next
      case False
      with c that show ?thesis by simp
    qed
    show ?thesis
    proof (cases "somewhere S Q prev")
      case True
      with cs' show ?thesis by simp
    next
      case False
      with "3.prems"(2) cw have "list_ex (somewhere S Q) (child' # rest)" by auto
      from "3.IH"(3)[OF g \<open>\<not> (sa \<noteq> None \<and> areDirectlyAdjacent prev child)\<close> c l this] cs'
      show ?thesis by simp
    qed
  qed
qed

subsection \<open>The forward pass\<close>

lemma standalone_somewhere:
  assumes co: "code_only Q" and mk: "merge_keeps Q" and S: "''mdastAttributes'' \<in> S"
  shows "processStandaloneInParent n = Some n' \<Longrightarrow> somewhere S Q n \<Longrightarrow>
           every_child {} no_className_attribute n \<Longrightarrow> somewhere S Q n'"
    and "standalone_loop cs = Some cs' \<Longrightarrow> list_ex (somewhere S Q) cs \<Longrightarrow>
           list_all (every_node {} no_className_attribute) cs \<Longrightarrow> list_ex (somewhere S Q) cs'"
proof (induction n and cs arbitrary: n' and cs' rule: processStandaloneInParent_standalone_loop.induct)
  case (1 parent)
  show ?case
  proof (cases "Q (props parent)")
    case True
    with standalone_root(1)[OF "1.prems"(1)] show ?thesis by (simp add: somewhere_iff)
  next
    case False
    with "1.prems"(2) obtain cs where Some: "children parent = Some cs"
      and nS: "ntype (props parent) \<notin> S" and ex: "list_ex (somewhere S Q) cs"
      by (auto simp: somewhere_iff some_child_def split: option.splits)
    with "1.prems"(1) obtain cs' where l: "standalone_loop cs = Some cs'"
      and n': "n' = Node (props parent) (Some cs')"
      by (auto simp: processStandaloneInParent.simps(1) split: bind_splits)
    from "1.prems"(3) Some have "list_all (every_node {} no_className_attribute) cs"
      by (simp add: every_child_def)
    from "1.IH"[OF Some l ex this] n' nS show ?thesis by simp
  qed
next
  case 2
  then show ?case by simp
next
  case (3 child rest)
  note unf = standalone_loop_Cons[of child rest]
  note st = no_className_attribute_stable[unfolded stable_def]
  from "3.prems"(1) obtain sa where g: "getStandaloneAttributesFromParagraph child = Some sa"
    by (auto simp: unf split: bind_splits)
  from "3.prems"(3) have ec: "every_node {} no_className_attribute child"
    and er: "list_all (every_node {} no_className_attribute) rest" by simp_all
  show ?case
  proof (cases "sa \<noteq> None \<and> rest \<noteq> [] \<and> areDirectlyAdjacent child (hd rest)")
    case True
    with "3.prems"(1) g obtain next' where
      m: "mergeAttributesToNode (hd rest) (str_attrs (attributes (props (the sa)))) = Some next'"
      and l: "standalone_loop (next' # tl rest) = Some cs'"
      by (auto simp: unf split: bind_splits)
    from True g obtain f where gs: "getStandaloneAttributesFromParagraph child = Some (Some f)"
      and sa: "sa = Some f" by auto
    from standalone_paragraph_nowhere[OF co S gs] have nc: "\<not> somewhere S Q child" .
    from standalone_paragraph_attrs[OF ec gs] have at: "''className'' \<notin> fst ` set (attributes (props f))" .
    from True obtain nx tl' where rest: "rest = nx # tl'" by (cases rest) auto
    from somewhere_merge[OF mk at _ m[unfolded sa, simplified]]
    have "somewhere S Q (hd rest) \<Longrightarrow> somewhere S Q next'" .
    with "3.prems"(2) nc rest have ex': "list_ex (somewhere S Q) (next' # tl rest)" by auto
    from er rest have "every_node {} no_className_attribute (hd rest)"
      "list_all (every_node {} no_className_attribute) (tl rest)" by simp_all
    with every_node_merge[OF conjunct1[OF st] _ m]
    have "list_all (every_node {} no_className_attribute) (next' # tl rest)" by simp
    from "3.IH"(1)[OF g True m l ex' this] show ?thesis .
  next
    case False
    with "3.prems"(1) g obtain child' rest' where
      c: "(if children child \<noteq> None then processStandaloneInParent child else Some child) = Some child'"
      and l: "standalone_loop rest = Some rest'" and cs': "cs' = child' # rest'"
      by (auto simp: unf split: bind_splits)
    have cw: "somewhere S Q child'" if "somewhere S Q child"
    proof (cases "children child \<noteq> None")
      case True
      with c have p: "processStandaloneInParent child = Some child'" by simp
      from ec have "every_child {} no_className_attribute child" by (simp add: every_node_iff)
      from "3.IH"(2)[OF g False True p that this] show ?thesis .
    next
      case False
      with c that show ?thesis by simp
    qed
    show ?thesis
    proof (cases "somewhere S Q child")
      case True
      with cw cs' show ?thesis by simp
    next
      case False
      with "3.prems"(2) have "list_ex (somewhere S Q) rest" by simp
      from "3.IH"(3)[OF g \<open>\<not> (sa \<noteq> None \<and> rest \<noteq> [] \<and> areDirectlyAdjacent child (hd rest))\<close> c l this er] cs'
      show ?thesis by simp
    qed
  qed
qed

subsection \<open>The resolver\<close>

lemma fragment_nowhere:
  assumes "code_only Q" "''mdastAttributes'' \<in> S" "ntype (props a) = ''mdastAttributes''"
  shows "\<not> somewhere S Q a"
  using somewhere_not[OF assms(1) _ _, of a S] assms(2,3) by simp

lemma handle_somewhere:
  assumes co: "code_only Q" and mk: "merge_keeps Q" and S: "''mdastAttributes'' \<in> S"
    and w: "somewhere S Q parent" and nca: "every_child {} no_className_attribute parent"
    and cs: "children parent = Some cs" and i: "i < length cs"
    and fr: "ntype (props (cs ! i)) = ''mdastAttributes''"
    and h: "handleAttributeNode parent i (cs ! i) = Some p'"
  shows "somewhere S Q p'"
proof -
  let ?a = "cs ! i"
  from nca cs i have "every_node {} no_className_attribute ?a"
    by (simp add: every_child_def list_all_length)
  then have "no_className_attribute (props ?a) (count ?a)" by (simp only: every_node_iff)
  with fr have at: "''className'' \<notin> fst ` set (attributes (props ?a))"
    by (simp add: no_className_attribute_def)
  from fragment_nowhere[OF co S fr] have na: "\<not> somewhere S Q ?a" .
  from h cs i consider
    (a) prev' where "0 < i" "mergeAttributesToNode (cs ! (i - 1)) (str_attrs (attributes (props ?a))) = Some prev'"
       "p' = Node (props parent) (Some (splice1 i (cs[i - 1 := prev'])))"
  | (b) parent' where "mergeAttributesToNode parent (str_attrs (attributes (props ?a))) = Some parent'"
       "p' = Node (props parent') (Some (splice1 i cs))"
  | (c) "p' = Node (props parent) (Some (cs[i := textNode ?a]))"
    by (auto simp: handleAttributeNode_def Let_def split: if_splits bind_splits)
  then show ?thesis
  proof cases
    case a
    show ?thesis
    proof (cases "Q (props parent)")
      case True
      with a(3) show ?thesis by (simp add: somewhere_iff)
    next
      case False
      with w cs have nS: "ntype (props parent) \<notin> S" and ex: "list_ex (somewhere S Q) cs"
        by (simp_all add: somewhere_iff some_child_def)
      have "somewhere S Q (cs ! (i - 1)) \<longrightarrow> somewhere S Q prev'"
        using somewhere_merge[OF mk at _ a(2)] by blast
      from list_ex_update_at[OF ex this] have ex2: "list_ex (somewhere S Q) (cs[i - 1 := prev'])" .
      from a(1) i have "(cs[i - 1 := prev']) ! i = cs ! i" by simp
      with na have "\<not> somewhere S Q ((cs[i - 1 := prev']) ! i)" by simp
      from list_ex_splice1[OF ex2 _ this] i have "list_ex (somewhere S Q) (splice1 i (cs[i - 1 := prev']))"
        by simp
      with a(3) nS show ?thesis by simp
    qed
  next
    case b
    show ?thesis
    proof (cases "Q (props parent)")
      case True
      with mk at b(1) have "Q (props parent')" unfolding merge_keeps_def by blast
      with b(2) show ?thesis by (simp add: somewhere_iff)
    next
      case False
      with w cs have nS: "ntype (props parent) \<notin> S" and ex: "list_ex (somewhere S Q) cs"
        by (simp_all add: somewhere_iff some_child_def)
      from list_ex_splice1[OF ex i na] b(2) nS mergeAttributesToNode_frame(1)[OF b(1)]
      show ?thesis by simp
    qed
  next
    case c
    show ?thesis
    proof (cases "Q (props parent)")
      case True
      with c show ?thesis by (simp add: somewhere_iff)
    next
      case False
      with w cs have nS: "ntype (props parent) \<notin> S" and ex: "list_ex (somewhere S Q) cs"
        by (simp_all add: somewhere_iff some_child_def)
      from na have "somewhere S Q (cs ! i) \<longrightarrow> somewhere S Q (textNode ?a)" by simp
      from list_ex_update_at[OF ex this] c nS show ?thesis by simp
    qed
  qed
qed

lemma processNode_somewhere:
  assumes co: "code_only Q" and mk: "merge_keeps Q" and S: "''mdastAttributes'' \<in> S"
  shows "processNode n = Some n' \<Longrightarrow> somewhere S Q n \<Longrightarrow>
           every_child {} no_className_attribute n \<Longrightarrow> somewhere S Q n'"
    and "processNode_loop parent k = Some r \<Longrightarrow> somewhere S Q parent \<Longrightarrow>
           every_child {} no_className_attribute parent \<Longrightarrow> somewhere S Q r"
proof (induction n and parent k arbitrary: n' and r rule: processNode_processNode_loop.induct)
  case (1 node)
  show ?case
  proof (cases "children node")
    case None
    with "1.prems" show ?thesis by (simp add: processNode.simps(1))
  next
    case (Some cs)
    with "1.prems"(1) have "processNode_loop node (length cs) = Some n'"
      by (simp add: processNode.simps(1))
    from "1.IH"[OF Some this "1.prems"(2,3)] show ?thesis .
  qed
next
  case (2 nodeWithChildren)
  then show ?case by simp
next
  case (3 parent i)
  note st = no_className_attribute_stable[unfolded stable_def]
  from st have ms: "merge_stable no_className_attribute" and ss: "shrink_stable no_className_attribute"
    and tk: "text_ok no_className_attribute" by simp_all
  from "3.prems"(1) obtain cs where cs: "children parent = Some cs" and i: "i < length cs"
    by (auto split: option.splits if_splits)
  from "3.prems"(3) cs have all: "list_all (every_node {} no_className_attribute) cs"
    by (simp add: every_child_def)
  have ni: "\<not> length cs \<le> i" using i by simp
  show ?case
  proof (cases "ntype (props (cs ! i)) = ''mdastAttributes''")
    case True
    with "3.prems"(1) cs i obtain p' where h: "handleAttributeNode parent i (cs ! i) = Some p'"
      and l: "processNode_loop p' i = Some r"
      by (auto split: bind_splits)
    from handle_somewhere[OF co mk S "3.prems"(2,3) cs i True h] have w': "somewhere S Q p'" .
    from handle_children[OF ms tk "3.prems"(3) h] have "every_child {} no_className_attribute p'" .
    from "3.IH"(1)[OF cs ni refl True h l w' this] show ?thesis .
  next
    case False
    with "3.prems"(1) cs i obtain c' where c': "processNode (cs ! i) = Some c'" and
      l: "processNode_loop (Node (props parent) (Some (cs[i := c']))) i = Some r"
      by (auto split: bind_splits)
    from all i have ci: "every_node {} no_className_attribute (cs ! i)" by (simp add: list_all_length)
    from processNode_every_node[OF no_className_attribute_stable c' ci]
    have "every_node {} no_className_attribute c'" .
    with all have e2: "every_child {} no_className_attribute (Node (props parent) (Some (cs[i := c'])))"
      by (simp add: every_child_def list_all_update)
    from ci have eci: "every_child {} no_className_attribute (cs ! i)" by (simp add: every_node_iff)
    have w2: "somewhere S Q (Node (props parent) (Some (cs[i := c'])))"
    proof (cases "Q (props parent)")
      case True
      then show ?thesis by simp
    next
      case False
      with "3.prems"(2) cs have nS: "ntype (props parent) \<notin> S" and ex: "list_ex (somewhere S Q) cs"
        by (simp_all add: somewhere_iff some_child_def)
      have "somewhere S Q (cs ! i) \<longrightarrow> somewhere S Q c'"
        using "3.IH"(2)[OF cs ni refl \<open>ntype (props (cs ! i)) \<noteq> ''mdastAttributes''\<close> c' _ eci] by blast
      from list_ex_update_at[OF ex this] nS show ?thesis by simp
    qed
    from "3.IH"(3)[OF cs ni refl False c' l w2 e2] show ?thesis .
  qed
qed

subsection \<open>The class sequence of a code node\<close>

text \<open>The property bag of a node, empty when \<^verbatim>\<open>data\<close> or \<^verbatim>\<open>hProperties\<close> is missing.\<close>

definition hprops :: "props \<Rightarrow> bag" where
  "hprops p = (case data p \<bind> hProperties of None \<Rightarrow> [] | Some h \<Rightarrow> h)"

text \<open>The bag holds under \<^verbatim>\<open>className\<close> a token sequence that starts with the given tokens.\<close>

definition class_tokens_start :: "string list \<Rightarrow> props \<Rightarrow> bool" where
  "class_tokens_start pre p =
     (case map_of (hprops p) ''className'' of
        Some (Toks ts) \<Rightarrow> take (length pre) ts = pre
      | _ \<Rightarrow> False)"

text \<open>A \<^verbatim>\<open>code\<close> node with the fields of the given one, \<^verbatim>\<open>data\<close> apart.\<close>

definition same_code_node :: "props \<Rightarrow> props \<Rightarrow> bool" where
  "same_code_node pc p =
     (ntype p = ''code'' \<and> lang p = lang pc \<and> nvalue p = nvalue pc \<and> position p = position pc
      \<and> attributes p = attributes pc \<and> spread p = spread pc)"

text \<open>The given code node after the transform: the same fields, no side-channel map, and a
  class sequence that starts with the given tokens.\<close>

definition relocated :: "props \<Rightarrow> string list \<Rightarrow> props \<Rightarrow> bool" where
  "relocated pc pre p = (same_code_node pc p \<and> side_channel p = None \<and> class_tokens_start pre p)"

lemma hprops_alt:
  "hprops p = (case hProperties (case data p of None \<Rightarrow> empty_data | Some d \<Rightarrow> d) of None \<Rightarrow> [] | Some h \<Rightarrow> h)"
  by (cases "data p") (simp_all add: hprops_def empty_data_def)

lemma add_lang_class_extends: "\<exists>xs. add_lang_class node e = e @ xs"
  by (auto simp: add_lang_class_def Let_def split: option.splits)

lemma take_prefix_append: "take (length pre) ts = pre \<Longrightarrow> take (length pre) (ts @ zs) = pre"
proof -
  assume a: "take (length pre) ts = pre"
  from arg_cong[OF a, of length] have "length pre \<le> length ts" by simp
  with a show ?thesis by simp
qed

lemma mergeAttributes_keeps_prefix:
  assumes "mergeAttributes target (str_attrs b) node = Some target'" "''className'' \<notin> fst ` set b"
    "map_of target ''className'' = Some (Toks ts)" "take (length pre) ts = pre"
  shows "\<exists>ts'. map_of target' ''className'' = Some (Toks ts') \<and> take (length pre) ts' = pre"
  using assms
proof (induction b arbitrary: target ts)
  case Nil
  then show ?case by (simp add: str_attrs_def)
next
  case (Cons e b)
  obtain k w where e: "e = (k, w)" by (cases e)
  from Cons.prems(2) e have kn: "k \<noteq> ''className''" and rest: "''className'' \<notin> fst ` set b" by auto
  show ?case
  proof (cases "k = ''class''")
    case True
    from Cons.prems(3) have ec: "existing_classes target = ts" by (simp add: existing_classes_def)
    obtain xs where xs: "add_lang_class node ts = ts @ xs" using add_lang_class_extends by blast
    let ?new = "fold add_class (split_space w) (ts @ xs)"
    let ?t = "AList.update ''className'' (Toks ?new) target"
    from Cons.prems(1) e True ec xs have m: "mergeAttributes ?t (str_attrs b) node = Some target'"
      by (simp add: str_attrs_def Let_def)
    have 1: "map_of ?t ''className'' = Some (Toks ?new)" by (simp add: update_conv')
    have eq: "?new = ts @ (xs @ first_occurrences (filter (\<lambda>c. c \<noteq> [] \<and> c \<notin> set (ts @ xs)) (split_space w)))"
      by (simp only: fold_add_class append_assoc)
    have 2: "take (length pre) ?new = pre"
      by (simp only: eq take_prefix_append[OF Cons.prems(4)])
    from Cons.IH[OF m rest 1 2] show ?thesis .
  next
    case False
    let ?t = "AList.update k (Str w) target"
    from Cons.prems(1) e False have m: "mergeAttributes ?t (str_attrs b) node = Some target'"
      by (simp add: str_attrs_def)
    from kn Cons.prems(3) have 1: "map_of ?t ''className'' = Some (Toks ts)" by (simp add: update_conv')
    from Cons.IH[OF m rest 1 Cons.prems(4)] show ?thesis .
  qed
qed

lemma class_tokens_start_merge:
  assumes "mergeAttributesToNode n (str_attrs b) = Some n'" "''className'' \<notin> fst ` set b"
    "class_tokens_start pre (props n)"
  shows "class_tokens_start pre (props n')"
proof -
  from assms(3) obtain ts where c: "map_of (hprops (props n)) ''className'' = Some (Toks ts)"
    and t: "take (length pre) ts = pre"
    by (auto simp: class_tokens_start_def split: option.splits pval.splits)
  from assms(1) obtain hp' where m: "mergeAttributes (hprops (props n)) (str_attrs b) (Some n) = Some hp'"
    and h: "hprops (props n') = hp'"
    by (auto simp: mergeAttributesToNode_def Let_def hprops_alt hprops_def split: bind_splits)
  from mergeAttributes_keeps_prefix[OF m assms(2) c t] h show ?thesis
    by (auto simp: class_tokens_start_def)
qed

lemma relocated_code_only: "code_only (relocated pc pre)"
  by (simp add: code_only_def relocated_def same_code_node_def)

lemma relocated_merge_keeps: "merge_keeps (relocated pc pre)"
  unfolding merge_keeps_def
proof (intro allI impI)
  fix n b n'
  assume q: "relocated pc pre (props n)" and b: "''className'' \<notin> fst ` set b"
    and m: "mergeAttributesToNode n (str_attrs b) = Some n'"
  from class_tokens_start_merge[OF m b] q have "class_tokens_start pre (props n')"
    by (simp add: relocated_def)
  with q mergeAttributesToNode_frame[OF m] show "relocated pc pre (props n')"
    by (simp add: relocated_def same_code_node_def side_channel_def)
qed

lemma code_block_pass_relocated:
  assumes "ntype p = ''code''" and "lang p = Some l" and "l \<noteq> []"
    and "data p = Some d" and "mdastAttributes d = Some side"
    and "distinct (map fst side)" and "(''class'', v) \<in> set side"
    and "''className'' \<notin> fst ` set side"
    and "existing_classes (case hProperties d of None \<Rightarrow> [] | Some h \<Rightarrow> h) = []"
    and "processCodeBlocks (Node p ch) = Some n1"
  shows "relocated p ((''language-'' @ l) #
            first_occurrences (filter (\<lambda>c. c \<noteq> [] \<and> c \<noteq> ''language-'' @ l) (split_space v))) (props n1)"
proof -
  from code_block_pass_class[OF assms(1-9), of ch] assms(10) obtain hp' where
    n1: "n1 = Node (p\<lparr>data := Some (d\<lparr>hProperties := Some hp', mdastAttributes := None\<rparr>)\<rparr>) ch"
    and c: "map_of hp' ''className''
               = Some (Toks ((''language-'' @ l) #
                    first_occurrences (filter (\<lambda>c. c \<noteq> [] \<and> c \<noteq> ''language-'' @ l) (split_space v))))"
    by auto
  from n1 c assms(1) show ?thesis
    by (simp add: relocated_def same_code_node_def side_channel_def class_tokens_start_def hprops_def)
qed

lemma code_every_attrs:
  "processCodeBlocks n = Some n' \<Longrightarrow> every_node S no_className_attribute n \<Longrightarrow>
     every_node S no_className_attribute n'"
proof (induction n arbitrary: n' rule: processCodeBlocks.induct)
  case (1 p ch)
  show ?case
  proof (cases "ntype p = ''code''")
    case True
    with "1.prems"(1) obtain p' where n': "n' = Node p' ch" and t: "ntype p' = ''code''"
      by (auto simp: Let_def split: option.splits bind_splits)
    from t have "no_className_attribute p' (map_option length ch)"
      by (simp add: no_className_attribute_def)
    with n' t True "1.prems"(2) show ?thesis by simp
  next
    case False
    show ?thesis
    proof (cases ch)
      case None
      with False "1.prems" show ?thesis by simp
    next
      case (Some cs)
      with False "1.prems" obtain cs' where t: "those (map processCodeBlocks cs) = Some cs'"
        and n': "n' = Node p (Some cs')"
        by (auto split: bind_splits)
      from t have l: "length cs' = length cs"
        and each: "\<forall>i<length cs. processCodeBlocks (cs ! i) = Some (cs' ! i)"
        by (simp_all add: those_map_Some)
      have "every_node S no_className_attribute (cs' ! i)"
        if "i < length cs" "list_all (every_node S no_className_attribute) cs" for i
        using "1.IH"[OF False Some, of "cs ! i" "cs' ! i"] each that by (simp add: list_all_length)
      with l n' "1.prems"(2) Some show ?thesis by (auto simp: list_all_length)
    qed
  qed
qed

lemma transform_relocated:
  assumes c: "ntype pc = ''code''" "lang pc = Some l" "l \<noteq> []"
    "data pc = Some d" "mdastAttributes d = Some side"
    "distinct (map fst side)" "(''class'', v) \<in> set side"
    "''className'' \<notin> fst ` set side"
    "existing_classes (case hProperties d of None \<Rightarrow> [] | Some h \<Rightarrow> h) = []"
    and w: "somewhere {''code'', ''mdastAttributes'', ''thematicBreak''} (\<lambda>p. p = pc) t"
    and a: "every_node {} no_className_attribute t"
    and r: "attributesTransform t = Some t'"
  shows "somewhere {''code'', ''mdastAttributes'', ''thematicBreak''}
           (relocated pc ((''language-'' @ l) #
              first_occurrences (filter (\<lambda>c. c \<noteq> [] \<and> c \<noteq> ''language-'' @ l) (split_space v)))) t'"
proof -
  let ?S = "{''code'', ''mdastAttributes'', ''thematicBreak''}"
  let ?Q = "relocated pc ((''language-'' @ l) #
              first_occurrences (filter (\<lambda>c. c \<noteq> [] \<and> c \<noteq> ''language-'' @ l) (split_space v)))"
  from r obtain t1 t2 t3 t4 t5 where
    s: "processCodeBlocks t = Some t1" "processThematicBreaksInParent t1 = Some t2"
    "processStandaloneInParent t2 = Some t3" "processTrailingInParent t3 = Some t4"
    "processNode t4 = Some t5" "promoteTightListAttributes t5 = Some t'"
    by (rule transform_steps)
  note co = relocated_code_only[of pc] and mk = relocated_merge_keeps[of pc]
  note st = no_className_attribute_stable
  have c0: "code_only (\<lambda>p. p = pc)" using c(1) by (simp add: code_only_def)
  have "somewhere ?S ?Q t1"
  proof (rule code_somewhere[OF _ c0 _ s(1) w])
    fix p ch n1 assume "p = pc" "processCodeBlocks (Node p ch) = Some n1"
    with code_block_pass_relocated[OF c, of ch n1] show "?Q (props n1)" by simp
  qed simp
  from thematic_somewhere[OF co _ s(2) this] have w2: "somewhere ?S ?Q t2" by simp
  from code_every_attrs[OF s(1) a] have a1: "every_node {} no_className_attribute t1" .
  from thematic_every_node[OF st s(2) a1] have a2: "every_node {} no_className_attribute t2" .
  from standalone_somewhere(1)[OF co mk _ s(3) w2 every_node_child[OF a2]]
  have w3: "somewhere ?S ?Q t3" by simp
  from standalone_every_node[OF st s(3) a2] have a3: "every_node {} no_className_attribute t3" .
  from trailing_somewhere(1)[OF co _ s(4) w3] have w4: "somewhere ?S ?Q t4" by simp
  from trailing_every_node[OF st s(4) a3] have a4: "every_node {} no_className_attribute t4" .
  from processNode_somewhere(1)[OF co mk _ s(5) w4 every_node_child[OF a4]]
  have w5: "somewhere ?S ?Q t5" by simp
  from promote_somewhere[OF co s(6) w5] show ?thesis .
qed

text \<open>A block quote holding a standalone attribute paragraph on line 1 and, from line 2 on,
  a fenced block of language \<^verbatim>\<open>js\<close> whose side-channel map gives the class \<^verbatim>\<open>highlight\<close>;
  and what the transform returns for it.\<close>

definition ex_fence :: props where
  "ex_fence = (bare ''code'')\<lparr>lang := Some ''js'', nvalue := Some ''x'', position := span 2 11 4 30,
                 data := Some \<lparr>hProperties = None, mdastAttributes = Some [(''class'', ''highlight'')]\<rparr>\<rparr>"

definition ex_quote :: node where
  "ex_quote = Node (bare ''root'')
     (Some [Node (bare ''blockquote'')
        (Some [Node ((bare ''paragraph'')\<lparr>position := span 1 2 1 12\<rparr>)
                 (Some [frag [(''id'', ''c''), (''class'', ''wide'')] ''{#c .wide}'' (span 1 2 1 12)]),
               Node ex_fence None])])"

definition ex_quote_out :: node where
  "ex_quote_out = Node (bare ''root'')
     (Some [Node (bare ''blockquote'')
        (Some [Node (ex_fence\<lparr>data := Some \<lparr>hProperties =
                        Some [(''className'', Toks [''language-js'', ''highlight'', ''wide'']),
                              (''id'', Str ''c'')],
                      mdastAttributes = None\<rparr>\<rparr>) None])])"

text \<open>
  C6 (amended). Take a \<^verbatim>\<open>code\<close> node with a non-empty \<^verbatim>\<open>lang\<close> whose side-channel map has a
  \<^verbatim>\<open>class\<close> entry and no \<^verbatim>\<open>className\<close> entry, and whose bag holds no class sequence yet. The
  code-block pass deletes its side-channel field and leaves under \<^verbatim>\<open>className\<close> the token
  sequence that starts with \<^verbatim>\<open>language-<lang>\<close> and goes on with the other non-empty pieces
  of the class value, each once, in order. Let the node occur anywhere in a tree, below
  ancestors none of which is a \<^verbatim>\<open>code\<close> node, a fragment or a thematic break, and let no
  fragment of the tree have an attribute named \<^verbatim>\<open>className\<close>. Then the transform returns
  on the tree when it is well-formed, and whenever it returns, the result holds a \<^verbatim>\<open>code\<close>
  node with the same language, value, position and other fields, without side-channel
  field, whose class sequence starts with these tokens; what a later pass attaches to
  the node comes behind them. No \<^verbatim>\<open>code\<close> node that the walk reaches has a side-channel field
  left.
\<close>

theorem code_block_language_class:
  assumes "ntype pc = ''code''" and "lang pc = Some l" and "l \<noteq> []"
    and "data pc = Some d" and "mdastAttributes d = Some side"
    and "distinct (map fst side)" and "(''class'', v) \<in> set side"
    and "''className'' \<notin> fst ` set side"
    and "existing_classes (case hProperties d of None \<Rightarrow> [] | Some h \<Rightarrow> h) = []"
    and "somewhere {''code'', ''mdastAttributes'', ''thematicBreak''} (\<lambda>p. p = pc) t"
    and "every_node {} no_className_attribute t"
  shows "(\<exists>hp'. processCodeBlocks (Node pc ch)
             = Some (Node (pc\<lparr>data := Some (d\<lparr>hProperties := Some hp', mdastAttributes := None\<rparr>)\<rparr>) ch)
           \<and> map_of hp' ''className''
               = Some (Toks ((''language-'' @ l) #
                    first_occurrences (filter (\<lambda>c. c \<noteq> [] \<and> c \<noteq> ''language-'' @ l) (split_space v)))))
       \<and> (every_node {} well_formed t \<longrightarrow> attributesTransform t \<noteq> None)
       \<and> (\<forall>t'. attributesTransform t = Some t' \<longrightarrow>
             somewhere {''code'', ''mdastAttributes'', ''thematicBreak''}
               (relocated pc ((''language-'' @ l) #
                  first_occurrences (filter (\<lambda>c. c \<noteq> [] \<and> c \<noteq> ''language-'' @ l) (split_space v)))) t'
             \<and> every_node {''code''} no_side_channel t')"
proof (intro conjI impI allI)
  show "\<exists>hp'. processCodeBlocks (Node pc ch)
             = Some (Node (pc\<lparr>data := Some (d\<lparr>hProperties := Some hp', mdastAttributes := None\<rparr>)\<rparr>) ch)
           \<and> map_of hp' ''className''
               = Some (Toks ((''language-'' @ l) #
                    first_occurrences (filter (\<lambda>c. c \<noteq> [] \<and> c \<noteq> ''language-'' @ l) (split_space v))))"
    using assms(1-9) by (rule code_block_pass_class)
next
  assume "every_node {} well_formed t"
  then show "attributesTransform t \<noteq> None" by (rule transform_total)
next
  fix t' assume "attributesTransform t = Some t'"
  with assms show "somewhere {''code'', ''mdastAttributes'', ''thematicBreak''}
               (relocated pc ((''language-'' @ l) #
                  first_occurrences (filter (\<lambda>c. c \<noteq> [] \<and> c \<noteq> ''language-'' @ l) (split_space v)))) t'"
    by (rule transform_relocated)
next
  fix t' assume "attributesTransform t = Some t'"
  then show "every_node {''code''} no_side_channel t'" by (rule transform_settled(1))
qed

theorem code_block_language_class_witness:
  "somewhere {''code'', ''mdastAttributes'', ''thematicBreak''} (\<lambda>p. p = ex_fence) ex_quote
   \<and> every_node {} no_className_attribute ex_quote
   \<and> every_node {} well_formed ex_quote
   \<and> attributesTransform ex_quote = Some ex_quote_out
   \<and> somewhere {''code'', ''mdastAttributes'', ''thematicBreak''}
        (relocated ex_fence [''language-js'', ''highlight'']) ex_quote_out
   \<and> every_node {''code''} no_side_channel ex_quote_out"
proof -
  let ?d = "\<lparr>hProperties = None, mdastAttributes = Some [(''class'', ''highlight'')]\<rparr>"
  have h: "ntype ex_fence = ''code''" "lang ex_fence = Some ''js''" "''js'' \<noteq> []" "data ex_fence = Some ?d"
    "mdastAttributes ?d = Some [(''class'', ''highlight'')]"
    "distinct (map fst [(''class'', ''highlight'')])"
    "(''class'', ''highlight'') \<in> set [(''class'', ''highlight'')]"
    "''className'' \<notin> fst ` set [(''class'', ''highlight'')]"
    "existing_classes (case hProperties ?d of None \<Rightarrow> [] | Some h \<Rightarrow> h) = []"
    by (simp_all add: ex_fence_def bare_def existing_classes_def)
  have w: "somewhere {''code'', ''mdastAttributes'', ''thematicBreak''} (\<lambda>p. p = ex_fence) ex_quote"
    by (simp add: ex_quote_def bare_def)
  have a: "every_node {} no_className_attribute ex_quote" by code_simp
  have f: "every_node {} well_formed ex_quote" by code_simp
  have e: "attributesTransform ex_quote = Some ex_quote_out" by code_simp
  have t: "(''language-'' @ ''js'') #
             first_occurrences (filter (\<lambda>c. c \<noteq> [] \<and> c \<noteq> ''language-'' @ ''js'') (split_space ''highlight''))
           = [''language-js'', ''highlight'']"
    by simp
  from code_block_language_class[OF h w a, of None] e
  have "somewhere {''code'', ''mdastAttributes'', ''thematicBreak''}
          (relocated ex_fence ((''language-'' @ ''js'') #
             first_occurrences (filter (\<lambda>c. c \<noteq> [] \<and> c \<noteq> ''language-'' @ ''js'') (split_space ''highlight''))))
          ex_quote_out"
    and "every_node {''code''} no_side_channel ex_quote_out"
    by blast+
  with t w a f e show ?thesis by simp
qed

text \<open>
  C6 as stated fails on these inputs. A side-channel map with \<^verbatim>\<open>className\<close> after
  \<^verbatim>\<open>class\<close> leaves the string of the \<^verbatim>\<open>className\<close> entry and no class token. A bag that
  already holds the user's class gets the language class after it, not ahead of it. A
  standalone paragraph on the line before the block whose fragment has the attribute
  \<^verbatim>\<open>className\<close> is attached to the block by the forward pass, and its string replaces the
  class tokens. A \<^verbatim>\<open>code\<close> node below a thematic break is deleted with the children of the
  break, one below a fragment with the fragment, and one below another \<^verbatim>\<open>code\<close> node is
  never reached and keeps its side-channel map.
\<close>

theorem code_block_class_lost_or_language_class_last:
  "attributesTransform
     (Node (bare ''root'') (Some [ex_code [(''class'', ''a''), (''className'', ''zzz'')] None]))
     = Some (Node (bare ''root'')
         (Some [Node ((bare ''code'')\<lparr>lang := Some ''js'', nvalue := Some ''x'',
                  data := Some \<lparr>hProperties = Some [(''className'', Str ''zzz'')],
                                mdastAttributes = None\<rparr>\<rparr>) None]))
   \<and> attributesTransform
     (Node (bare ''root'')
        (Some [ex_code [(''class'', ''highlight'')] (Some [(''className'', Toks [''highlight''])])]))
     = Some (Node (bare ''root'')
         (Some [Node ((bare ''code'')\<lparr>lang := Some ''js'', nvalue := Some ''x'',
                  data := Some \<lparr>hProperties = Some [(''className'', Toks [''highlight'', ''language-js''])],
                                mdastAttributes = None\<rparr>\<rparr>) None]))
   \<and> attributesTransform
     (Node (bare ''root'')
        (Some [Node ((bare ''paragraph'')\<lparr>position := span 1 2 1 17\<rparr>)
                 (Some [frag [(''className'', ''zzz'')] ''{className=zzz}'' (span 1 2 1 17)]),
               Node ex_fence None]))
     = Some (Node (bare ''root'')
         (Some [Node (ex_fence\<lparr>data := Some \<lparr>hProperties = Some [(''className'', Str ''zzz'')],
                                            mdastAttributes = None\<rparr>\<rparr>) None]))
   \<and> attributesTransform
     (Node (bare ''root'') (Some [Node (bare ''thematicBreak'') (Some [Node ex_fence None])]))
     = Some (Node (bare ''root'') (Some [Node (bare ''thematicBreak'') None]))
   \<and> attributesTransform
     (Node (bare ''root'')
        (Some [Node (bare ''paragraph'')
                 (Some [ex_text ''t'' None,
                        Node ((bare ''mdastAttributes'')\<lparr>nvalue := Some ''{}''\<rparr>) (Some [Node ex_fence None]),
                        ex_text ''u'' None])]))
     = Some (Node (bare ''root'')
         (Some [Node (bare ''paragraph'')
                  (Some [ex_text ''t'' None, ex_text ''{}'' None, ex_text ''u'' None])]))
   \<and> attributesTransform
     (Node (bare ''root'') (Some [Node (bare ''code'') (Some [Node ex_fence None])]))
     = Some (Node (bare ''root'') (Some [Node (bare ''code'') (Some [Node ex_fence None])]))"
  by code_simp


end
